theory Spec2Isabelle
  imports Complex_Main "HOL-Library.Multiset"
begin

section \<open>Fuzzy reconciliation of the aggregated ledger against the PID table\<close>

text \<open>
  The development embeds the three functions of \<^verbatim>\<open>Gaeltec2.0.py\<close> that make up the
  fuzzy matching block (\<^verbatim>\<open>preprocess_string\<close>, \<^verbatim>\<open>find_best_match\<close>,
  \<^verbatim>\<open>merge_with_pid_fuzzy\<close>) together with the part of pandas they rely on.
\<close>

subsection \<open>Python strings\<close>

text \<open>
  A Python \<^verbatim>\<open>str\<close> is a sequence of code points. A \<^typ>\<open>char\<close> stands for the code
  point of the same number, so the texts covered are those over U+0000 .. U+00FF; a text with
  a character above U+00FF is outside the model, and every property below is a property of
  texts within that range. The character classes below are those of CPython for that range:
  \<^verbatim>\<open>str.isspace\<close> (also used by \<^verbatim>\<open>str.strip\<close>, by \<^verbatim>\<open>str.split\<close> and by the
  regex class \<^verbatim>\<open>\s\<close>), the regex class \<^verbatim>\<open>\w\<close> (alphanumeric or underscore) and the
  characters that \<^verbatim>\<open>str.lower\<close> changes (\<open>is_upper\<close>; each is moved 32 code points up).
\<close>

definition code_point :: "char \<Rightarrow> nat" where
  "code_point c = of_char c"

definition is_space :: "char \<Rightarrow> bool" where
  "is_space c = (let n = code_point c in
     (9 \<le> n \<and> n \<le> 13) \<or> (28 \<le> n \<and> n \<le> 32) \<or> n = 133 \<or> n = 160)"

definition is_alnum :: "char \<Rightarrow> bool" where
  "is_alnum c = (let n = code_point c in
     (48 \<le> n \<and> n \<le> 57) \<or> (65 \<le> n \<and> n \<le> 90) \<or> (97 \<le> n \<and> n \<le> 122) \<or>
     n = 170 \<or> n = 178 \<or> n = 179 \<or> n = 181 \<or> n = 185 \<or> n = 186 \<or>
     (188 \<le> n \<and> n \<le> 190) \<or> (192 \<le> n \<and> n \<le> 214) \<or> (216 \<le> n \<and> n \<le> 246) \<or>
     248 \<le> n)"

definition is_word :: "char \<Rightarrow> bool" where
  "is_word c = (is_alnum c \<or> c = CHR ''_'')"

definition is_upper :: "char \<Rightarrow> bool" where
  "is_upper c = (let n = code_point c in
     (65 \<le> n \<and> n \<le> 90) \<or> (192 \<le> n \<and> n \<le> 214) \<or> (216 \<le> n \<and> n \<le> 222))"

definition lower_char :: "char \<Rightarrow> char" where
  "lower_char c = (if is_upper c then char_of (code_point c + 32) else c)"

definition lower :: "string \<Rightarrow> string" where
  "lower s = map lower_char s"

definition strip :: "string \<Rightarrow> string" where
  "strip s = rev (dropWhile is_space (rev (dropWhile is_space s)))"

text \<open>\<^verbatim>\<open>re.sub(r'\s+', ' ', text)\<close>: every maximal run of whitespace becomes one space.\<close>

function collapse_whitespace :: "string \<Rightarrow> string" where
  "collapse_whitespace [] = []"
| "collapse_whitespace (c # cs) =
     (if is_space c then CHR '' '' # collapse_whitespace (dropWhile is_space cs)
      else c # collapse_whitespace cs)"
  by pat_completeness auto
termination
  by (relation "measure length") (auto simp: length_dropWhile_le less_Suc_eq_le)

text \<open>\<^verbatim>\<open>re.sub(r'[^\w\s]', '', text)\<close>: every character outside both classes is deleted.\<close>

definition remove_special :: "string \<Rightarrow> string" where
  "remove_special s = filter (\<lambda>c. is_word c \<or> is_space c) s"

subsection \<open>Cells and library functions\<close>

text \<open>
  A cell of a table is missing (\<^verbatim>\<open>NaN\<close> or \<^verbatim>\<open>None\<close>), a text or a number.
  Scores are Python floats; they are only ever compared, so they are read as the reals they
  denote.
\<close>

datatype cell = Null | Str string | Num real

text \<open>
  Two functions come from outside the repository and are parameters of the model:
  \<^verbatim>\<open>rapidfuzz.fuzz.partial_ratio\<close> and Python's \<^verbatim>\<open>str\<close> on a number.
\<close>

record pylib =
  partial_ratio :: "string \<Rightarrow> string \<Rightarrow> real"
  str_num :: "real \<Rightarrow> string"

definition isna :: "cell \<Rightarrow> bool" where
  "isna v = (v = Null)"

text \<open>
  \<^verbatim>\<open>str(text)\<close>; the first equation is never reached, every call being behind the
  \<^verbatim>\<open>pd.isna\<close> guard.
\<close>

fun py_str :: "pylib \<Rightarrow> cell \<Rightarrow> string" where
  "py_str env Null = ''nan''"
| "py_str env (Str s) = s"
| "py_str env (Num x) = str_num env x"

definition preprocess_string :: "pylib \<Rightarrow> cell \<Rightarrow> string" where
  "preprocess_string env text =
     (if isna text then ''''
      else remove_special (collapse_whitespace (strip (lower (py_str env text)))))"

subsection \<open>find_best_match\<close>

text \<open>
  The loop of \<^verbatim>\<open>find_best_match\<close> over the candidates, with the pair
  \<^verbatim>\<open>(best_match, best_score)\<close> as its state. \<^verbatim>\<open>None\<close> for
  \<^verbatim>\<open>best_match\<close> is \<^term>\<open>None\<close>.
\<close>

fun best_match_loop ::
  "pylib \<Rightarrow> cell \<Rightarrow> real \<Rightarrow> cell list \<Rightarrow> cell option \<times> real \<Rightarrow> cell option \<times> real" where
  "best_match_loop env target threshold [] (best_match, best_score) = (best_match, best_score)"
| "best_match_loop env target threshold (candidate # rest) (best_match, best_score) =
     (if isna candidate then best_match_loop env target threshold rest (best_match, best_score)
      else
        let score = partial_ratio env (preprocess_string env target) (preprocess_string env candidate)
        in if score > best_score \<and> score \<ge> threshold
           then best_match_loop env target threshold rest (Some candidate, score)
           else best_match_loop env target threshold rest (best_match, best_score))"

definition find_best_match ::
  "pylib \<Rightarrow> cell \<Rightarrow> cell list option \<Rightarrow> real \<Rightarrow> cell option \<times> real" where
  "find_best_match env target candidates threshold =
     (if isna target then (None, 0)
      else case candidates of
        None \<Rightarrow> (None, 0)
      | Some cs \<Rightarrow>
          if length cs = 0 then (None, 0)
          else best_match_loop env target threshold cs (None, 0))"

subsection \<open>Tables\<close>

text \<open>
  A \<^verbatim>\<open>DataFrame\<close> is its column labels and its rows, each row holding one cell per
  column in the order of the labels; a cell that a row is too short to hold reads as missing.
  A \<^verbatim>\<open>Series\<close> (one row taken out of a frame) is the list of its labels with their
  values.
\<close>

type_synonym series = "(string \<times> cell) list"

record dataframe =
  columns :: "string list"
  rows :: "cell list list"

datatype py_error = KeyError string | IndexError | TypeError

datatype message =
    Warning_missing_agg "string list"
  | Warning_missing_pid "string list"
  | Sidebar_info nat
  | Sidebar_success nat nat

definition series_get :: "series \<Rightarrow> string \<Rightarrow> cell" where
  "series_get s c = (case map_of s c of None \<Rightarrow> Null | Some v \<Rightarrow> v)"

definition row_series :: "dataframe \<Rightarrow> cell list \<Rightarrow> series" where
  "row_series df r = zip (columns df) (r @ replicate (length (columns df) - length r) Null)"

definition cell_at :: "dataframe \<Rightarrow> cell list \<Rightarrow> string \<Rightarrow> cell" where
  "cell_at df r c = series_get (row_series df r) c"

definition df_empty :: "dataframe \<Rightarrow> bool" where
  "df_empty df = (rows df = [] \<or> columns df = [])"

text \<open>\<^verbatim>\<open>drop_duplicates\<close> and \<^verbatim>\<open>unique\<close> keep the first occurrence of each value.\<close>

fun drop_duplicates :: "'a list \<Rightarrow> 'a list" where
  "drop_duplicates [] = []"
| "drop_duplicates (x # xs) = x # drop_duplicates (filter (\<lambda>y. y \<noteq> x) xs)"

text \<open>The elementwise \<^verbatim>\<open>==\<close> of pandas: a missing value equals nothing, itself included.\<close>

definition cell_eq :: "cell \<Rightarrow> cell \<Rightarrow> bool" where
  "cell_eq a b = (a \<noteq> Null \<and> b \<noteq> Null \<and> a = b)"

text \<open>Truth value of a candidate in \<^verbatim>\<open>if best_match and ...\<close>; a candidate is never
  missing, so the first equation is not reached.\<close>

fun truthy :: "cell \<Rightarrow> bool" where
  "truthy Null = False"
| "truthy (Str s) = (s \<noteq> [])"
| "truthy (Num x) = (x \<noteq> 0)"

text \<open>\<^verbatim>\<open>new_row[col] = v\<close>: overwrite the label where it is, or add it at the end.\<close>

fun set_item :: "series \<Rightarrow> string \<Rightarrow> cell \<Rightarrow> series" where
  "set_item [] k v = [(k, v)]"
| "set_item ((k', v') # s) k v = (if k' = k then (k, v) # s else (k', v') # set_item s k v)"

text \<open>\<^verbatim>\<open>pd.DataFrame([row])\<close>.\<close>

definition frame_of_series :: "series \<Rightarrow> dataframe" where
  "frame_of_series s = \<lparr>columns = map fst s, rows = [map snd s]\<rparr>"

text \<open>\<^verbatim>\<open>df[(df['project'] == project) & (df['shire'] == shire)]\<close>.\<close>

definition key_subset :: "dataframe \<Rightarrow> cell \<Rightarrow> cell \<Rightarrow> dataframe" where
  "key_subset df project shire =
     df\<lparr>rows := filter (\<lambda>r. cell_eq (cell_at df r ''project'') project \<and>
                            cell_eq (cell_at df r ''shire'') shire) (rows df)\<rparr>"

text \<open>\<^verbatim>\<open>pd.concat(frames, ignore_index=True)\<close>: the columns are the union of the frames'
  columns in order of first appearance, and every row is re-indexed to them.\<close>

definition concat_frames :: "dataframe list \<Rightarrow> dataframe" where
  "concat_frames fs =
     (let cols = drop_duplicates (concat (map columns fs))
      in \<lparr>columns = cols,
          rows = concat (map (\<lambda>f. map (\<lambda>r. map (cell_at f r) cols) (rows f)) fs)\<rparr>)"

text \<open>\<^verbatim>\<open>df[c] = df[c].fillna(v)\<close>; reading an absent column raises \<^verbatim>\<open>KeyError\<close>.\<close>

definition fillna_column :: "dataframe \<Rightarrow> string \<Rightarrow> cell \<Rightarrow> py_error + dataframe" where
  "fillna_column df c v =
     (if c \<in> set (columns df)
      then Inr (df\<lparr>rows := map (\<lambda>r. map (\<lambda>col. let x = cell_at df r col
                                               in if col = c \<and> isna x then v else x)
                                     (columns df)) (rows df)\<rparr>)
      else Inl (KeyError c))"

text \<open>A loop that appends one result per element and stops at the first exception.\<close>

fun try_map :: "('a \<Rightarrow> 'e + 'b) \<Rightarrow> 'a list \<Rightarrow> 'e + 'b list" where
  "try_map f [] = Inr []"
| "try_map f (x # xs) =
     (case f x of
        Inl e \<Rightarrow> Inl e
      | Inr y \<Rightarrow> (case try_map f xs of Inl e \<Rightarrow> Inl e | Inr ys \<Rightarrow> Inr (y # ys)))"

subsection \<open>merge_with_pid_fuzzy\<close>

definition required_agg_cols :: "string list" where
  "required_agg_cols = [''project'', ''shire'', ''segmentdesc'']"

definition required_pid_cols :: "string list" where
  "required_pid_cols = [''project'', ''shire'', ''project_description'', ''pid_ohl_nr'']"

definition missing_cols :: "string list \<Rightarrow> dataframe \<Rightarrow> string list" where
  "missing_cols required df = filter (\<lambda>col. col \<notin> set (columns df)) required"

text \<open>\<^verbatim>\<open>pid_subset['project_description'].dropna().unique()\<close>.\<close>

definition pid_descriptions :: "dataframe \<Rightarrow> cell list" where
  "pid_descriptions pid_subset =
     drop_duplicates (filter (\<lambda>v. \<not> isna v)
       (map (\<lambda>r. cell_at pid_subset r ''project_description'') (rows pid_subset)))"

text \<open>The loop \<^verbatim>\<open>for col in pid_subset.columns\<close> that adds the other PID columns.\<close>

definition add_pid_columns :: "dataframe \<Rightarrow> series \<Rightarrow> series \<Rightarrow> series" where
  "add_pid_columns pid_subset matched_pid_row new_row =
     fold (\<lambda>col nr. if col \<notin> set (map fst nr) \<and> col \<notin> set [''project'', ''shire'']
                     then set_item nr col (series_get matched_pid_row col) else nr)
          (columns pid_subset) new_row"

definition make_new_row :: "dataframe \<Rightarrow> series \<Rightarrow> series \<Rightarrow> cell \<Rightarrow> real \<Rightarrow> series" where
  "make_new_row pid_subset matched_pid_row agg_row best_match match_score =
     add_pid_columns pid_subset matched_pid_row
       (set_item
         (set_item
           (set_item
             (set_item agg_row ''matched_project_description'' best_match)
             ''match_score'' (Num match_score))
           ''pid_ohl_nr'' (series_get matched_pid_row ''pid_ohl_nr''))
         ''project_description'' best_match)"

text \<open>The body of the loop over the rows of \<^verbatim>\<open>agg_subset\<close>: the frame appended to
  \<^verbatim>\<open>matched_rows\<close> for one row. \<^verbatim>\<open>.iloc[0]\<close> raises on an empty selection.\<close>

definition match_row :: "pylib \<Rightarrow> dataframe \<Rightarrow> series \<Rightarrow> py_error + dataframe" where
  "match_row env pid_subset agg_row =
     (let segment_desc = series_get agg_row ''segmentdesc''
      in if isna segment_desc then Inr (frame_of_series agg_row)
         else case find_best_match env segment_desc (Some (pid_descriptions pid_subset)) 75 of
           (None, match_score) \<Rightarrow> Inr (frame_of_series agg_row)
         | (Some best_match, match_score) \<Rightarrow>
             if truthy best_match \<and> match_score \<ge> 75
             then (case filter (\<lambda>r. cell_eq (cell_at pid_subset r ''project_description'') best_match)
                               (rows pid_subset) of
                     [] \<Rightarrow> Inl IndexError
                   | r # _ \<Rightarrow>
                       Inr (frame_of_series
                             (make_new_row pid_subset (row_series pid_subset r) agg_row
                                best_match match_score)))
             else Inr (frame_of_series agg_row))"

text \<open>The body of the loop over \<^verbatim>\<open>unique_combinations\<close>: the frames appended for one
  (project, shire) pair.\<close>

definition match_combination ::
  "pylib \<Rightarrow> dataframe \<Rightarrow> dataframe \<Rightarrow> cell \<times> cell \<Rightarrow> py_error + dataframe list" where
  "match_combination env agg_df pid_df key =
     (let agg_subset = key_subset agg_df (fst key) (snd key);
          pid_subset = key_subset pid_df (fst key) (snd key)
      in if df_empty pid_subset then Inr [agg_subset]
         else try_map (match_row env pid_subset) (map (row_series agg_subset) (rows agg_subset)))"

definition unique_combinations :: "dataframe \<Rightarrow> (cell \<times> cell) list" where
  "unique_combinations agg_df =
     drop_duplicates (map (\<lambda>r. (cell_at agg_df r ''project'', cell_at agg_df r ''shire''))
                          (rows agg_df))"

text \<open>\<^verbatim>\<open>(result_df['match_score'] >= 75).sum()\<close>; comparing a text with a number raises.\<close>

fun matched_count :: "cell list \<Rightarrow> py_error + nat" where
  "matched_count [] = Inr 0"
| "matched_count (Str s # vs) = Inl TypeError"
| "matched_count (Null # vs) = matched_count vs"
| "matched_count (Num x # vs) =
     (case matched_count vs of Inl e \<Rightarrow> Inl e | Inr n \<Rightarrow> Inr (if x \<ge> 75 then Suc n else n))"

text \<open>The tail of the function, from \<^verbatim>\<open>pd.concat\<close> on.\<close>

definition fill_result :: "dataframe \<Rightarrow> py_error + dataframe" where
  "fill_result result_df =
     (case fillna_column result_df ''matched_project_description'' (Str ''No Match'') of
        Inl e \<Rightarrow> Inl e
      | Inr df1 \<Rightarrow>
          (case fillna_column df1 ''match_score'' (Num 0) of
             Inl e \<Rightarrow> Inl e
           | Inr df2 \<Rightarrow> fillna_column df2 ''pid_ohl_nr'' (Str ''Not Available'')))"

text \<open>
  The function returns the messages it has shown (the two warnings and the two sidebar notices;
  the progress bar carries no data and is left out) and either the exception that ended it or
  the table it returns. \<^verbatim>\<open>pid_df is None\<close> is \<^term>\<open>None\<close>.
\<close>

definition merge_with_pid_fuzzy ::
  "pylib \<Rightarrow> dataframe \<Rightarrow> dataframe option \<Rightarrow> message list \<times> (py_error + dataframe)" where
  "merge_with_pid_fuzzy env agg_df pid_opt =
     (case pid_opt of
        None \<Rightarrow> ([], Inr agg_df)
      | Some pid_df \<Rightarrow>
          if df_empty agg_df then ([], Inr agg_df)
          else
            let missing_agg = missing_cols required_agg_cols agg_df;
                missing_pid = missing_cols required_pid_cols pid_df
            in if missing_agg \<noteq> [] then ([Warning_missing_agg missing_agg], Inr agg_df)
               else if missing_pid \<noteq> [] then ([Warning_missing_pid missing_pid], Inr agg_df)
               else
                 let combos = unique_combinations agg_df;
                     info = Sidebar_info (length combos)
                 in (case try_map (match_combination env agg_df pid_df) combos of
                      Inl e \<Rightarrow> ([info], Inl e)
                    | Inr appended \<Rightarrow>
                        let matched_rows = concat appended
                        in if matched_rows \<noteq> [] then
                             (case fill_result (concat_frames matched_rows) of
                                Inl e \<Rightarrow> ([info], Inl e)
                              | Inr result_df \<Rightarrow>
                                  (case matched_count (map (\<lambda>r. cell_at result_df r ''match_score'')
                                                           (rows result_df)) of
                                     Inl e \<Rightarrow> ([info], Inl e)
                                   | Inr n \<Rightarrow>
                                       ([info, Sidebar_success n (length (rows result_df))],
                                        Inr result_df)))
                           else ([info], Inr agg_df)))"

subsection \<open>Notions used to state the properties\<close>

text \<open>\<^verbatim>\<open>text.split()\<close>: the tokens of a text, its maximal runs of characters that are not
  whitespace.\<close>

function tokens :: "string \<Rightarrow> string list" where
  "tokens s =
     (case dropWhile is_space s of
        [] \<Rightarrow> []
      | c # cs \<Rightarrow> (c # takeWhile (\<lambda>x. \<not> is_space x) cs) #
                  tokens (dropWhile (\<lambda>x. \<not> is_space x) cs))"
  by pat_completeness auto
termination
proof (relation "measure length")
  show "wf (measure length)" by simp
next
  fix s :: string and c cs
  assume "dropWhile is_space s = c # cs"
  then have "length (c # cs) \<le> length s"
    by (metis length_dropWhile_le)
  moreover have "length (dropWhile (\<lambda>x. \<not> is_space x) cs) \<le> length cs"
    by (rule length_dropWhile_le)
  ultimately show "(dropWhile (\<lambda>x. \<not> is_space x) cs, s) \<in> measure length" by simp
qed

text \<open>\<^verbatim>\<open>' '.join(words)\<close>.\<close>

fun join_spaces :: "string list \<Rightarrow> string" where
  "join_spaces [] = []"
| "join_spaces [w] = w"
| "join_spaces (w # v # ws) = w @ CHR '' '' # join_spaces (v # ws)"

text \<open>\<^verbatim>\<open>text.rstrip()\<close>.\<close>

definition rstrip :: "string \<Rightarrow> string" where
  "rstrip s = rev (dropWhile is_space (rev s))"

text \<open>Shape of a normalised text: the only whitespace is the space character, never doubled,
  never leading or trailing.\<close>

fun no_double_space :: "string \<Rightarrow> bool" where
  "no_double_space (a # b # cs) =
     (\<not> (a = CHR '' '' \<and> b = CHR '' '') \<and> no_double_space (b # cs))"
| "no_double_space cs = True"

definition single_spaced :: "string \<Rightarrow> bool" where
  "single_spaced s = (list_all (\<lambda>c. is_space c \<longrightarrow> c = CHR '' '') s \<and> no_double_space s \<and>
     (case s of [] \<Rightarrow> True | c # cs \<Rightarrow> c \<noteq> CHR '' '' \<and> last s \<noteq> CHR '' ''))"

text \<open>The four columns that the accepted branch assigns to \<^verbatim>\<open>new_row\<close>.\<close>

definition assigned_cols :: "string list" where
  "assigned_cols = [''matched_project_description'', ''match_score'', ''pid_ohl_nr'',
     ''project_description'']"

text \<open>The effect of the three \<^verbatim>\<open>fillna\<close> calls on one cell of column \<open>c\<close>.\<close>

definition fill_value :: "string \<Rightarrow> cell \<Rightarrow> cell" where
  "fill_value c v =
     (if v = Null \<and> c = ''matched_project_description'' then Str ''No Match''
      else if v = Null \<and> c = ''match_score'' then Num 0
      else if v = Null \<and> c = ''pid_ohl_nr'' then Str ''Not Available''
      else v)"

text \<open>The rows of the aggregated table in the order in which the two loops visit them.\<close>

definition grouped_rows :: "dataframe \<Rightarrow> cell list list" where
  "grouped_rows agg_df =
     concat (map (\<lambda>key. rows (key_subset agg_df (fst key) (snd key))) (unique_combinations agg_df))"

text \<open>The rows of a list of frames, as series.\<close>

definition frame_series :: "dataframe list \<Rightarrow> series list" where
  "frame_series fs = concat (map (\<lambda>f. map (row_series f) (rows f)) fs)"

text \<open>Series \<open>s\<close> is what the loops append for row \<open>r\<close> of the aggregated table.\<close>

definition row_outcome :: "pylib \<Rightarrow> dataframe \<Rightarrow> dataframe \<Rightarrow> cell list \<Rightarrow> series \<Rightarrow> bool" where
  "row_outcome env agg_df pid_df r s =
     (let pid_subset = key_subset pid_df (cell_at agg_df r ''project'') (cell_at agg_df r ''shire'');
          agg_row = row_series agg_df r
      in if df_empty pid_subset then s = agg_row
         else match_row env pid_subset agg_row = Inr (frame_of_series s))"

text \<open>The three guards that precede the matching loops.\<close>

definition reconcilable :: "dataframe \<Rightarrow> dataframe \<Rightarrow> bool" where
  "reconcilable agg_df pid_df =
     (\<not> df_empty agg_df \<and> missing_cols required_agg_cols agg_df = [] \<and>
      missing_cols required_pid_cols pid_df = [])"

text \<open>The aggregated table does not yet have any of the three columns that are filled.\<close>

definition unenriched :: "dataframe \<Rightarrow> bool" where
  "unenriched agg_df =
     (''matched_project_description'' \<notin> set (columns agg_df) \<and>
      ''match_score'' \<notin> set (columns agg_df) \<and>
      ''pid_ohl_nr'' \<notin> set (columns agg_df))"

text \<open>The "no match" sentinel in a row of the result.\<close>

definition sentinel_row :: "dataframe \<Rightarrow> cell list \<Rightarrow> bool" where
  "sentinel_row out r =
     (cell_at out r ''matched_project_description'' = Str ''No Match'' \<and>
      cell_at out r ''match_score'' = Num 0 \<and>
      cell_at out r ''pid_ohl_nr'' = Str ''Not Available'')"

text \<open>The candidate descriptions that row \<open>r\<close> of the aggregated table is compared with.\<close>

definition row_candidates :: "dataframe \<Rightarrow> dataframe \<Rightarrow> cell list \<Rightarrow> cell list" where
  "row_candidates agg_df pid_df r =
     pid_descriptions (key_subset pid_df (cell_at agg_df r ''project'') (cell_at agg_df r ''shire''))"

text \<open>The value of a \<^verbatim>\<open>match_score\<close> cell reaches the threshold.\<close>

fun score_accepted :: "cell \<Rightarrow> bool" where
  "score_accepted (Num x) = (75 \<le> x)"
| "score_accepted v = False"

text \<open>The test of \<^verbatim>\<open>merge_with_pid_fuzzy\<close> that sends row \<open>r\<close> of the aggregated table into
  the accepted branch.\<close>

definition row_accepted :: "pylib \<Rightarrow> dataframe \<Rightarrow> dataframe \<Rightarrow> cell list \<Rightarrow> bool" where
  "row_accepted env agg_df pid_df r =
     (cell_at agg_df r ''segmentdesc'' \<noteq> Null \<and>
      (case find_best_match env (cell_at agg_df r ''segmentdesc'')
              (Some (row_candidates agg_df pid_df r)) 75 of
         (None, match_score) \<Rightarrow> False
       | (Some best_match, match_score) \<Rightarrow> truthy best_match \<and> 75 \<le> match_score))"

text \<open>Row \<open>r'\<close> of the result took its reference id and description from row \<open>p\<close> of the
  reference table, which has the project and shire of \<open>r'\<close>.\<close>

definition copied_from :: "dataframe \<Rightarrow> dataframe \<Rightarrow> cell list \<Rightarrow> cell list \<Rightarrow> bool" where
  "copied_from pid_df out r' p =
     (cell_at pid_df p ''project'' = cell_at out r' ''project'' \<and>
      cell_at pid_df p ''shire'' = cell_at out r' ''shire'' \<and>
      cell_at out r' ''project'' \<noteq> Null \<and> cell_at out r' ''shire'' \<noteq> Null \<and>
      cell_at pid_df p ''project_description'' = cell_at out r' ''matched_project_description'' \<and>
      cell_at out r' ''pid_ohl_nr'' = fill_value ''pid_ohl_nr'' (cell_at pid_df p ''pid_ohl_nr''))"

subsection \<open>Sample inputs\<close>

text \<open>
  The scorer of the sample inputs is \<^verbatim>\<open>rapidfuzz.fuzz.partial_ratio\<close> as the library
  defines it. \<^verbatim>\<open>fuzz.ratio\<close> is the normalised Indel similarity: 100 times twice the length
  of a longest common subsequence of the two texts, over the sum of their lengths.
\<close>

fun lcs_length :: "string \<Rightarrow> string \<Rightarrow> nat" where
  "lcs_length [] t = 0"
| "lcs_length (a # s) [] = 0"
| "lcs_length (a # s) (b # t) =
     (if a = b then Suc (lcs_length s t)
      else max (lcs_length s (b # t)) (lcs_length (a # s) t))"

definition indel_ratio :: "string \<Rightarrow> string \<Rightarrow> real" where
  "indel_ratio s t =
     (if s = [] \<and> t = [] then 100
      else 100 * real (2 * lcs_length s t) / real (length s + length t))"

text \<open>
  \<^verbatim>\<open>partial_ratio\<close> compares the shorter text \<open>s1\<close> with the windows of the longer text
  \<open>s2\<close>: the prefixes of \<open>s2\<close> that are shorter than \<open>s1\<close>, the substrings of \<open>s2\<close> of the
  length of \<open>s1\<close>, and the suffixes of \<open>s2\<close> of at most that length. A window is skipped when
  its last character (for a suffix: its first character) does not occur in \<open>s1\<close>.
\<close>

definition ratio_windows :: "string \<Rightarrow> string \<Rightarrow> string list" where
  "ratio_windows s1 s2 =
     (let len1 = length s1; len2 = length s2 in
      filter (\<lambda>w. w \<noteq> [] \<and> last w \<in> set s1) (map (\<lambda>i. take i s2) [1..<len1]) @
      filter (\<lambda>w. w \<noteq> [] \<and> last w \<in> set s1)
        (map (\<lambda>i. take len1 (drop i s2)) [0..<len2 - len1]) @
      filter (\<lambda>w. w \<noteq> [] \<and> hd w \<in> set s1) (map (\<lambda>i. drop i s2) [len2 - len1..<len2]))"

text \<open>The best ratio over the windows, starting from 0.\<close>

definition partial_ratio_impl :: "string \<Rightarrow> string \<Rightarrow> real" where
  "partial_ratio_impl s1 s2 =
     fold (\<lambda>w score. if indel_ratio s1 w > score then indel_ratio s1 w else score)
       (ratio_windows s1 s2) 0"

text \<open>
  Two empty texts score 100. Texts of equal length are compared in both roles unless the first
  comparison already gives 100. The values are the exact quotients, of which the library
  returns the nearest float.
\<close>

definition fuzz_partial_ratio :: "string \<Rightarrow> string \<Rightarrow> real" where
  "fuzz_partial_ratio s1 s2 =
     (if s1 = [] \<and> s2 = [] then 100
      else
        let shorter = (if length s1 \<le> length s2 then s1 else s2);
            longer = (if length s1 \<le> length s2 then s2 else s1);
            score = partial_ratio_impl shorter longer
        in if score \<noteq> 100 \<and> length s1 = length s2
           then max score (partial_ratio_impl longer shorter)
           else score)"

text \<open>
  No sample holds a number where a text is read, so \<^verbatim>\<open>str\<close> of a number plays no part in
  them.
\<close>

definition sample_lib :: pylib where
  "sample_lib = \<lparr>partial_ratio = fuzz_partial_ratio, str_num = (\<lambda>x. [])\<rparr>"

text \<open>A ledger of four rows over two projects, and a reference table with one row that
  shares a key with it. The text ``Stay A'' is also in the reference table, under another
  shire; against ``pole a'' it scores 50.\<close>

definition agg_sample :: dataframe where
  "agg_sample = \<lparr>columns = [''project'', ''shire'', ''segmentdesc'', ''qty''],
     rows = [[Str ''P1'', Str ''Ayr'', Str ''Pole A'', Num 1],
             [Str ''P2'', Str ''Ayr'', Str ''Pole B'', Num 2],
             [Str ''P1'', Str ''Ayr'', Str ''Stay A'', Num 3],
             [Str ''P1'', Str ''Ayr'', Null, Num 4]]\<rparr>"

definition pid_sample :: dataframe where
  "pid_sample = \<lparr>columns = [''project'', ''shire'', ''project_description'', ''pid_ohl_nr'',
                            ''voltage''],
     rows = [[Str ''P1'', Str ''Ayr'', Str ''pole a'', Str ''OHL-1'', Num 11],
             [Str ''P1'', Str ''Lanark'', Str ''Stay A'', Str ''OHL-9'', Num 33]]\<rparr>"

text \<open>The table returned for them: the rows of project P1 first, then the row of P2.\<close>

definition out_sample :: dataframe where
  "out_sample = \<lparr>columns = [''project'', ''shire'', ''segmentdesc'', ''qty'',
        ''matched_project_description'', ''match_score'', ''pid_ohl_nr'',
        ''project_description'', ''voltage''],
     rows = [[Str ''P1'', Str ''Ayr'', Str ''Pole A'', Num 1,
                Str ''pole a'', Num 100, Str ''OHL-1'', Str ''pole a'', Num 11],
             [Str ''P1'', Str ''Ayr'', Str ''Stay A'', Num 3,
                Str ''No Match'', Num 0, Str ''Not Available'', Null, Null],
             [Str ''P1'', Str ''Ayr'', Null, Num 4,
                Str ''No Match'', Num 0, Str ''Not Available'', Null, Null],
             [Str ''P2'', Str ''Ayr'', Str ''Pole B'', Num 2,
                Str ''No Match'', Num 0, Str ''Not Available'', Null, Null]]\<rparr>"


text \<open>A reference row without an identifier, and a ledger row that matches it.\<close>

definition agg_wire :: dataframe where
  "agg_wire = \<lparr>columns = [''project'', ''shire'', ''segmentdesc''],
     rows = [[Str ''P3'', Str ''Ayr'', Str ''Wire'']]\<rparr>"

definition pid_null_id :: dataframe where
  "pid_null_id = \<lparr>columns = [''project'', ''shire'', ''project_description'', ''pid_ohl_nr''],
     rows = [[Str ''P3'', Str ''Ayr'', Str ''wire'', Null]]\<rparr>"

text \<open>The second example scenario of the specification: the same text under another region.\<close>

definition agg_scenario :: dataframe where
  "agg_scenario = \<lparr>columns = [''project'', ''shire'', ''segmentdesc''],
     rows = [[Str ''PCB 2022'', Str ''Ayrshire'', Str ''Erect pole near substation A'']]\<rparr>"

definition pid_scenario :: dataframe where
  "pid_scenario = \<lparr>columns = [''project'', ''shire'', ''project_description'', ''pid_ohl_nr''],
     rows = [[Str ''PCB 2022'', Str ''Lanark'', Str ''Erect pole substation A'',
              Str ''OHL-001'']]\<rparr>"

text \<open>Tables that lack a required column.\<close>

definition agg_no_shire :: dataframe where
  "agg_no_shire = \<lparr>columns = [''project'', ''segmentdesc''],
     rows = [[Str ''P1'', Str ''Pole A'']]\<rparr>"

definition agg_no_shire_empty :: dataframe where
  "agg_no_shire_empty = \<lparr>columns = [''project'', ''segmentdesc''], rows = []\<rparr>"

definition pid_no_id :: dataframe where
  "pid_no_id = \<lparr>columns = [''project'', ''shire'', ''project_description''],
     rows = [[Str ''P1'', Str ''Ayr'', Str ''pole a'']]\<rparr>"




definition out_wire :: dataframe where
  "out_wire = \<lparr>columns = [''project'', ''shire'', ''segmentdesc'',
        ''matched_project_description'', ''match_score'', ''pid_ohl_nr'',
        ''project_description''],
     rows = [[Str ''P3'', Str ''Ayr'', Str ''Wire'',
                Str ''wire'', Num 100, Str ''Not Available'', Str ''wire'']]\<rparr>"





text \<open>A ledger that already has a column \<^verbatim>\<open>pid_ohl_nr\<close>, and the table returned for it
  and the reference table above.\<close>

definition agg_old_ids :: dataframe where
  "agg_old_ids = \<lparr>columns = [''project'', ''shire'', ''segmentdesc'', ''pid_ohl_nr''],
     rows = [[Str ''P1'', Str ''Ayr'', Str ''Pole A'', Str ''OLD-1''],
             [Str ''P2'', Str ''Ayr'', Str ''Pole B'', Str ''OLD-2'']]\<rparr>"

definition out_old_ids :: dataframe where
  "out_old_ids = \<lparr>columns = [''project'', ''shire'', ''segmentdesc'', ''pid_ohl_nr'',
        ''matched_project_description'', ''match_score'', ''project_description'', ''voltage''],
     rows = [[Str ''P1'', Str ''Ayr'', Str ''Pole A'', Str ''OHL-1'',
                Str ''pole a'', Num 100, Str ''pole a'', Num 11],
             [Str ''P2'', Str ''Ayr'', Str ''Pole B'', Str ''OLD-2'',
                Str ''No Match'', Num 0, Null, Null]]\<rparr>"

section \<open>Properties of preprocess_string\<close>

declare tokens.simps [simp del]

lemma space_not_word: "is_space c \<Longrightarrow> \<not> is_word c"
  by (auto simp: is_space_def is_word_def is_alnum_def code_point_def Let_def)

lemma space_is_space: "is_space (CHR '' '')"
  by (simp add: is_space_def code_point_def)

lemma tokens_Nil [simp]: "tokens [] = []"
  by (simp add: tokens.simps)

lemma tokens_space [simp]: "is_space c \<Longrightarrow> tokens (c # cs) = tokens cs"
  by (simp add: tokens.simps [of "c # cs"] tokens.simps [of cs])

lemma tokens_char [simp]:
  "\<not> is_space c \<Longrightarrow>
   tokens (c # cs) = (c # takeWhile (\<lambda>x. \<not> is_space x) cs) # tokens (dropWhile (\<lambda>x. \<not> is_space x) cs)"
  by (simp add: tokens.simps [of "c # cs"])

lemma tokens_dropWhile: "tokens (dropWhile is_space s) = tokens s"
  by (induction s) auto

lemma tokens_empty: "tokens s = [] \<longleftrightarrow> (\<forall>c\<in>set s. is_space c)"
proof (induction s)
  case Nil
  show ?case by simp
next
  case (Cons a s)
  then show ?case by (cases "is_space a") auto
qed

lemma rstrip_empty: "rstrip s = [] \<longleftrightarrow> (\<forall>c\<in>set s. is_space c)"
  by (simp add: rstrip_def dropWhile_eq_Nil_conv)

lemma rstrip_Nil [simp]: "rstrip [] = []"
  by (simp add: rstrip_def)

lemma rstrip_Cons:
  "rstrip (c # cs) = (if rstrip cs = [] \<and> is_space c then [] else c # rstrip cs)"
  by (auto simp: rstrip_def dropWhile_append dropWhile_eq_Nil_conv)

lemma strip_rstrip: "strip s = rstrip (dropWhile is_space s)"
  by (simp add: strip_def rstrip_def)

lemma dropWhile_rstrip: "dropWhile is_space (rstrip s) = rstrip (dropWhile is_space s)"
proof (induction s)
  case Nil
  show ?case by simp
next
  case (Cons a s)
  show ?case
  proof (cases "is_space a \<and> rstrip s = []")
    case True
    then have "rstrip (dropWhile is_space s) = []"
      by (auto simp: rstrip_empty dest: set_dropWhileD)
    with True show ?thesis by (simp add: rstrip_Cons)
  next
    case False
    with Cons show ?thesis by (auto simp: rstrip_Cons)
  qed
qed

lemma join_spaces_Cons: "join_spaces ((c # w) # ws) = c # join_spaces (w # ws)"
  by (cases ws) auto

lemma join_spaces_Nil_Cons:
  "join_spaces ([] # ws) = (if ws = [] then [] else CHR '' '' # join_spaces ws)"
  by (cases ws) auto

lemma tokens_tail:
  "\<not> is_space c \<Longrightarrow>
   join_spaces (tokens (c # cs)) =
     c # (if cs \<noteq> [] \<and> is_space (hd cs) \<and> tokens cs \<noteq> [] then CHR '' '' # join_spaces (tokens cs)
          else join_spaces (tokens cs))"
proof (cases cs)
  case Nil
  assume "\<not> is_space c"
  with Nil show ?thesis by simp
next
  case (Cons d ds)
  assume c: "\<not> is_space c"
  show ?thesis
  proof (cases "is_space d")
    case True
    with c Cons show ?thesis by (simp add: join_spaces_Cons join_spaces_Nil_Cons)
  next
    case False
    with c Cons show ?thesis by (simp add: join_spaces_Cons)
  qed
qed

lemma collapse_rstrip:
  "collapse_whitespace (rstrip u) =
     (if u \<noteq> [] \<and> is_space (hd u) \<and> tokens u \<noteq> [] then CHR '' '' # join_spaces (tokens u)
      else join_spaces (tokens u))"
proof (induction u rule: collapse_whitespace.induct)
  case 1
  show ?case by simp
next
  case (2 c cs)
  show ?case
  proof (cases "is_space c")
    case True
    let ?d = "dropWhile is_space cs"
    have d: "\<not> (?d \<noteq> [] \<and> is_space (hd ?d))"
      using hd_dropWhile [of is_space cs] by auto
    show ?thesis
    proof (cases "rstrip cs = []")
      case e: True
      then have "tokens cs = []" by (simp add: rstrip_empty tokens_empty)
      with True e show ?thesis by (simp add: rstrip_Cons)
    next
      case ne: False
      then have t: "tokens cs \<noteq> []" by (simp add: rstrip_empty tokens_empty)
      from 2(1) [OF True] d
      have "collapse_whitespace (rstrip ?d) = join_spaces (tokens cs)"
        by (auto simp: tokens_dropWhile)
      with True ne t show ?thesis by (simp add: rstrip_Cons dropWhile_rstrip)
    qed
  next
    case False
    from 2(2) [OF False] False show ?thesis
      by (simp only: tokens_tail [OF False] rstrip_Cons) simp
  qed
qed

lemma collapse_strip_tokens: "collapse_whitespace (strip s) = join_spaces (tokens s)"
proof -
  let ?d = "dropWhile is_space s"
  have "\<not> (?d \<noteq> [] \<and> is_space (hd ?d))"
    using hd_dropWhile [of is_space s] by auto
  with collapse_rstrip [of ?d] show ?thesis
    by (auto simp: strip_rstrip tokens_dropWhile)
qed

lemma tokens_no_space: "w \<in> set (tokens s) \<Longrightarrow> c \<in> set w \<Longrightarrow> \<not> is_space c"
proof (induction s arbitrary: w rule: tokens.induct)
  case (1 s)
  show ?case
  proof (cases "dropWhile is_space s")
    case Nil
    with 1(2) show ?thesis by (simp add: tokens.simps [of s])
  next
    case (Cons d ds)
    then have d: "\<not> is_space d" using hd_dropWhile [of is_space s] by auto
    from 1(2) Cons consider "w = d # takeWhile (\<lambda>x. \<not> is_space x) ds"
      | "w \<in> set (tokens (dropWhile (\<lambda>x. \<not> is_space x) ds))"
      by (auto simp: tokens.simps [of s])
    then show ?thesis
    proof cases
      case 1
      with \<open>c \<in> set w\<close> d show ?thesis by (auto dest: set_takeWhileD)
    next
      case 2
      from 1(1) [OF Cons 2 1(3)] show ?thesis .
    qed
  qed
qed

lemma tokens_nonempty: "w \<in> set (tokens s) \<Longrightarrow> w \<noteq> []"
proof (induction s arbitrary: w rule: tokens.induct)
  case (1 s)
  show ?case
  proof (cases "dropWhile is_space s")
    case Nil
    with 1(2) show ?thesis by (simp add: tokens.simps [of s])
  next
    case (Cons d ds)
    from 1(2) Cons consider "w = d # takeWhile (\<lambda>x. \<not> is_space x) ds"
      | "w \<in> set (tokens (dropWhile (\<lambda>x. \<not> is_space x) ds))"
      by (auto simp: tokens.simps [of s])
    then show ?thesis
    proof cases
      case 1
      then show ?thesis by simp
    next
      case 2
      from 1(1) [OF Cons 2] show ?thesis .
    qed
  qed
qed

lemma remove_special_join:
  "remove_special (join_spaces ws) = join_spaces (map remove_special ws)"
  by (induction ws rule: join_spaces.induct) (simp_all add: remove_special_def space_is_space)

lemma remove_special_token:
  "(\<And>c. c \<in> set w \<Longrightarrow> \<not> is_space c) \<Longrightarrow> remove_special w = filter is_word w"
  unfolding remove_special_def by (rule filter_cong) auto

lemma remove_special_tokens:
  "map remove_special (tokens s) = map (filter is_word) (tokens s)"
  by (rule map_cong) (auto intro: remove_special_token dest: tokens_no_space)

lemma token_form:
  "remove_special (collapse_whitespace (strip s)) = join_spaces (map (filter is_word) (tokens s))"
  by (simp add: collapse_strip_tokens remove_special_join remove_special_tokens)

lemma no_double_space_plain: "\<forall>c\<in>set w. c \<noteq> CHR '' '' \<Longrightarrow> no_double_space w"
  by (induction w rule: no_double_space.induct) auto

lemma no_double_space_append:
  "\<forall>c\<in>set w. c \<noteq> CHR '' '' \<Longrightarrow> t \<noteq> [] \<Longrightarrow> hd t \<noteq> CHR '' '' \<Longrightarrow> no_double_space t \<Longrightarrow>
   no_double_space (w @ CHR '' '' # t)"
proof (induction w)
  case Nil
  then show ?case by (cases t) auto
next
  case (Cons a w)
  then show ?case by (cases w) auto
qed

lemma join_spaces_nonempty: "w \<noteq> [] \<Longrightarrow> join_spaces (w # ws) \<noteq> []"
  by (cases ws) auto

lemma join_spaces_hd: "w \<noteq> [] \<Longrightarrow> hd (join_spaces (w # ws)) = hd w"
  by (cases ws) auto

lemma single_spaced_join:
  assumes "\<forall>w\<in>set ws. w \<noteq> [] \<and> (\<forall>c\<in>set w. \<not> is_space c)"
  shows "single_spaced (join_spaces ws)"
  using assms
proof (induction ws rule: join_spaces.induct)
  case 1
  show ?case by (simp add: single_spaced_def)
next
  case (2 w)
  then have w: "w \<noteq> []" "\<forall>c\<in>set w. \<not> is_space c" by auto
  from w(2) have p: "\<forall>c\<in>set w. c \<noteq> CHR '' ''" using space_is_space by auto
  from w(1) p have "hd w \<noteq> CHR '' ''" "last w \<noteq> CHR '' ''" by auto
  with w p no_double_space_plain [OF p] show ?case
    by (cases w) (auto simp: single_spaced_def list_all_iff)
next
  case (3 w v ws)
  let ?t = "join_spaces (v # ws)"
  from 3(2) have w: "w \<noteq> []" "\<forall>c\<in>set w. \<not> is_space c" and v: "v \<noteq> []"
    and rest: "\<forall>w\<in>set (v # ws). w \<noteq> [] \<and> (\<forall>c\<in>set w. \<not> is_space c)"
    by auto
  from w(2) have p: "\<forall>c\<in>set w. c \<noteq> CHR '' ''" using space_is_space by auto
  from 3(1) [OF rest] have ih: "single_spaced ?t" .
  have ne: "?t \<noteq> []" using v by (rule join_spaces_nonempty)
  from ih ne have t: "hd ?t \<noteq> CHR '' ''" "last ?t \<noteq> CHR '' ''" "no_double_space ?t"
    "list_all (\<lambda>c. is_space c \<longrightarrow> c = CHR '' '') ?t"
    by (cases ?t; simp add: single_spaced_def)+
  have a: "no_double_space (w @ CHR '' '' # ?t)"
    using p ne t(1) t(3) by (rule no_double_space_append)
  have b: "list_all (\<lambda>c. is_space c \<longrightarrow> c = CHR '' '') (w @ CHR '' '' # ?t)"
    using w(2) t(4) by (auto simp: list_all_iff)
  have c: "hd (w @ CHR '' '' # ?t) \<noteq> CHR '' ''" using w(1) p by (cases w) auto
  have d: "last (w @ CHR '' '' # ?t) \<noteq> CHR '' ''" using ne t(2) by simp
  from a b c d w(1) show ?case
    by (cases w) (simp_all add: single_spaced_def)
qed

lemma tokens_word_single_spaced:
  assumes "\<forall>w\<in>set (tokens s). \<exists>c\<in>set w. is_word c"
  shows "single_spaced (join_spaces (map (filter is_word) (tokens s)))"
proof (rule single_spaced_join, rule ballI)
  fix w assume "w \<in> set (map (filter is_word) (tokens s))"
  then obtain u where u: "u \<in> set (tokens s)" "w = filter is_word u" by auto
  with assms obtain c where "c \<in> set u" "is_word c" by blast
  then have "c \<in> set w" by (simp add: u(2))
  then have "w \<noteq> []" by auto
  moreover have "\<forall>c\<in>set w. \<not> is_space c" using space_not_word by (auto simp: u(2))
  ultimately show "w \<noteq> [] \<and> (\<forall>c\<in>set w. \<not> is_space c)" by blast
qed

lemma preprocess_string_tokens:
  "v \<noteq> Null \<Longrightarrow>
   preprocess_string env v = join_spaces (map (filter is_word) (tokens (lower (py_str env v))))"
  by (simp add: preprocess_string_def isna_def token_form)

lemmas string_eval = preprocess_string_def isna_def lower_def lower_char_def is_upper_def
  code_point_def strip_def is_space_def remove_special_def is_word_def is_alnum_def char_of_def
  bit_Suc_0_iff

text \<open>
  C10 (as the code has it), for texts over U+0000 .. U+00FF. A missing value normalises to the
  empty text. The normal form of a text consists of the tokens of the lower-cased text, each
  without its characters that are not word characters, in their order and with exactly one
  space between two consecutive tokens; a word character is an alphanumeric character or the
  underscore. A token without any word character becomes empty and the spaces around it stay.
  When every token has a word character, the normal form is single-spaced. A number is
  normalised as the text that \<^verbatim>\<open>str\<close> gives for it.
\<close>

theorem preprocess_string_normal_form:
  "preprocess_string env Null = [] \<and>
   preprocess_string env (Str s) = join_spaces (map (filter is_word) (tokens (lower s))) \<and>
   ((\<forall>w\<in>set (tokens (lower s)). \<exists>c\<in>set w. is_word c) \<longrightarrow>
      single_spaced (preprocess_string env (Str s))) \<and>
   preprocess_string env (Num x) = preprocess_string env (Str (str_num env x))"
proof (intro conjI impI)
  show "preprocess_string env Null = []"
    by (simp add: preprocess_string_def isna_def)
  show e: "preprocess_string env (Str s) = join_spaces (map (filter is_word) (tokens (lower s)))"
    using preprocess_string_tokens [of "Str s" env] by simp
  show "preprocess_string env (Num x) = preprocess_string env (Str (str_num env x))"
    by (simp add: preprocess_string_def isna_def)
  assume "\<forall>w\<in>set (tokens (lower s)). \<exists>c\<in>set w. is_word c"
  then show "single_spaced (preprocess_string env (Str s))"
    unfolding e by (rule tokens_word_single_spaced)
qed

theorem preprocess_string_normal_form_witness:
  "tokens (lower '' Erect   Pole (11kV) '') = [''erect'', ''pole'', ''(11kv)''] \<and>
   list_all (list_ex is_word) (tokens (lower '' Erect   Pole (11kV) '')) \<and>
   map (filter is_word) [''erect'', ''pole'', ''(11kv)''] = [''erect'', ''pole'', ''11kv''] \<and>
   preprocess_string sample_lib (Str '' Erect   Pole (11kV) '') = ''erect pole 11kv'' \<and>
   single_spaced (preprocess_string sample_lib (Str '' Erect   Pole (11kV) ''))"
proof -
  have k: "tokens (lower '' Erect   Pole (11kV) '') = [''erect'', ''pole'', ''(11kv)'']"
    by code_simp
  have h: "list_all (list_ex is_word) (tokens (lower '' Erect   Pole (11kV) ''))"
    unfolding k by code_simp
  then have h': "\<forall>w\<in>set (tokens (lower '' Erect   Pole (11kV) '')). \<exists>c\<in>set w. is_word c"
    by (simp add: list_all_iff list_ex_iff)
  have f: "map (filter is_word) [''erect'', ''pole'', ''(11kv)''] = [''erect'', ''pole'', ''11kv'']"
    by code_simp
  have e: "preprocess_string sample_lib (Str '' Erect   Pole (11kV) '') = ''erect pole 11kv''"
    by code_simp
  from preprocess_string_normal_form [of sample_lib "'' Erect   Pole (11kV) ''"] h'
  have "single_spaced (preprocess_string sample_lib (Str '' Erect   Pole (11kV) ''))"
    by blast
  with k h f e show ?thesis by blast
qed

text \<open>
  C10 as stated fails twice: the underscore is neither alphanumeric nor whitespace and
  survives, and deleting a character between two spaces leaves them side by side.
\<close>

theorem preprocess_string_counterexample:
  "preprocess_string sample_lib (Str ''a_b'') = ''a_b'' \<and>
   \<not> is_alnum (CHR ''_'') \<and> \<not> is_space (CHR ''_'') \<and>
   preprocess_string sample_lib (Str ''a - b'') = ''a  b'' \<and>
   \<not> single_spaced (preprocess_string sample_lib (Str ''a - b''))"
  by (simp add: string_eval single_spaced_def)

section \<open>Properties of find_best_match\<close>

lemma best_match_loop_thresholds:
  assumes "t1 \<le> t2"
    and "(s1 = s2 \<and> (fst s2 = None \<longrightarrow> snd s2 = 0) \<and> (fst s2 \<noteq> None \<longrightarrow> t2 \<le> snd s2)) \<or>
         (s2 = (None, 0) \<and> 0 \<le> snd s1 \<and> snd s1 < t2)"
  shows "(best_match_loop env target t1 cs s1 = best_match_loop env target t2 cs s2 \<and>
          (fst (best_match_loop env target t2 cs s2) = None \<longrightarrow>
             snd (best_match_loop env target t2 cs s2) = 0) \<and>
          (fst (best_match_loop env target t2 cs s2) \<noteq> None \<longrightarrow>
             t2 \<le> snd (best_match_loop env target t2 cs s2))) \<or>
         (best_match_loop env target t2 cs s2 = (None, 0) \<and>
          0 \<le> snd (best_match_loop env target t1 cs s1) \<and>
          snd (best_match_loop env target t1 cs s1) < t2)"
  using assms(2)
proof (induction cs arbitrary: s1 s2)
  case Nil
  then show ?case by (cases s1; cases s2) auto
next
  case (Cons c cs)
  obtain m1 b1 where s1: "s1 = (m1, b1)" by (cases s1)
  obtain m2 b2 where s2: "s2 = (m2, b2)" by (cases s2)
  show ?case
  proof (cases "isna c")
    case True
    with Cons.IH [OF Cons.prems] show ?thesis by (simp add: s1 s2)
  next
    case False
    define x where "x = partial_ratio env (preprocess_string env target) (preprocess_string env c)"
    let ?n1 = "if x > b1 \<and> x \<ge> t1 then (Some c, x) else (m1, b1)"
    let ?n2 = "if x > b2 \<and> x \<ge> t2 then (Some c, x) else (m2, b2)"
    have step1: "best_match_loop env target t1 (c # cs) s1 = best_match_loop env target t1 cs ?n1"
      using False by (simp add: s1 x_def Let_def)
    have step2: "best_match_loop env target t2 (c # cs) s2 = best_match_loop env target t2 cs ?n2"
      using False by (simp add: s2 x_def Let_def)
    have "(?n1 = ?n2 \<and> (fst ?n2 = None \<longrightarrow> snd ?n2 = 0) \<and> (fst ?n2 \<noteq> None \<longrightarrow> t2 \<le> snd ?n2)) \<or>
         (?n2 = (None, 0) \<and> 0 \<le> snd ?n1 \<and> snd ?n1 < t2)"
      using Cons.prems assms(1) by (auto simp: s1 s2)
    from Cons.IH [OF this] show ?thesis
      unfolding step1 step2 .
  qed
qed

lemma find_best_match_mono:
  assumes "t1 \<le> t2" and "fst (find_best_match env target candidates t2) \<noteq> None"
  shows "find_best_match env target candidates t1 = find_best_match env target candidates t2"
proof (cases "isna target \<or> candidates = None \<or> candidates = Some []")
  case True
  then show ?thesis by (auto simp: find_best_match_def)
next
  case False
  then obtain cs where cs: "candidates = Some cs" "cs \<noteq> []" "\<not> isna target" by auto
  have "((None::cell option, 0::real) = (None, 0) \<and> (fst (None::cell option, 0::real) = None \<longrightarrow> snd (None::cell option, 0::real) = 0) \<and>
      (fst (None::cell option, 0::real) \<noteq> None \<longrightarrow> t2 \<le> snd (None::cell option, 0::real))) \<or>
         ((None::cell option, 0::real) = (None, 0) \<and> 0 \<le> snd (None::cell option, 0::real) \<and> snd (None::cell option, 0::real) < t2)"
    by simp
  from best_match_loop_thresholds [OF assms(1) this, of env target cs] assms(2) cs
  show ?thesis by (auto simp: find_best_match_def)
qed

lemma length_filter_mono:
  "(\<And>x. P x \<Longrightarrow> Q x) \<Longrightarrow> length (filter P xs) \<le> length (filter Q xs)"
  by (induction xs) auto

text \<open>
  C8. For thresholds \<open>t1 \<le> t2\<close>, a target and a candidate list for which
  \<^verbatim>\<open>find_best_match\<close> returns a match at \<open>t2\<close> get the very same match and score at
  \<open>t1\<close>; hence over any list of (target, candidates) pairs the number of matches returned at
  \<open>t2\<close> is at most the number returned at \<open>t1\<close>.
\<close>

theorem find_best_match_threshold_monotone:
  assumes "t1 \<le> t2"
  shows "(fst (find_best_match env target candidates t2) \<noteq> None \<longrightarrow>
            find_best_match env target candidates t1 = find_best_match env target candidates t2) \<and>
         length (filter (\<lambda>job. fst (find_best_match env (fst job) (snd job) t2) \<noteq> None) jobs)
           \<le> length (filter (\<lambda>job. fst (find_best_match env (fst job) (snd job) t1) \<noteq> None) jobs)"
proof
  show "fst (find_best_match env target candidates t2) \<noteq> None \<longrightarrow>
      find_best_match env target candidates t1 = find_best_match env target candidates t2"
    using find_best_match_mono [OF assms] by blast
  show "length (filter (\<lambda>job. fst (find_best_match env (fst job) (snd job) t2) \<noteq> None) jobs)
      \<le> length (filter (\<lambda>job. fst (find_best_match env (fst job) (snd job) t1) \<noteq> None) jobs)"
  proof (rule length_filter_mono)
    fix job
    assume "fst (find_best_match env (fst job) (snd job) t2) \<noteq> None"
    with find_best_match_mono [OF assms, of env "fst job" "snd job"]
    show "fst (find_best_match env (fst job) (snd job) t1) \<noteq> None" by simp
  qed
qed

theorem find_best_match_threshold_monotone_witness:
  "(75::real) \<le> 90 \<and>
   find_best_match sample_lib (Str ''Pole A'') (Some [Str ''cable'', Str ''pole a'']) 90 =
     (Some (Str ''pole a''), 100) \<and>
   find_best_match sample_lib (Str ''Pole A'') (Some [Str ''cable'', Str ''pole a'']) 75 =
     (Some (Str ''pole a''), 100)"
proof -
  have h: "(75::real) \<le> 90" by simp
  have e: "find_best_match sample_lib (Str ''Pole A'') (Some [Str ''cable'', Str ''pole a'']) 90 =
     (Some (Str ''pole a''), 100)"
    by code_simp
  from find_best_match_threshold_monotone [OF h, of sample_lib "Str ''Pole A''"
      "Some [Str ''cable'', Str ''pole a'']" "[]"] e
  have "find_best_match sample_lib (Str ''Pole A'') (Some [Str ''cable'', Str ''pole a'']) 75 =
     (Some (Str ''pole a''), 100)"
    by simp
  with h e show ?thesis by blast
qed

section \<open>Properties of the table operations\<close>

lemma set_drop_duplicates [simp]: "set (drop_duplicates xs) = set xs"
  by (induction xs rule: drop_duplicates.induct) auto

lemma distinct_drop_duplicates [simp]: "distinct (drop_duplicates xs)"
  by (induction xs rule: drop_duplicates.induct) auto

lemma drop_duplicates_append:
  "distinct xs \<Longrightarrow>
   drop_duplicates (xs @ ys) = xs @ drop_duplicates (filter (\<lambda>y. y \<notin> set xs) ys)"
proof (induction xs arbitrary: ys)
  case Nil
  show ?case by simp
next
  case (Cons x xs)
  have f: "filter (\<lambda>y. y \<noteq> x) xs = xs" using Cons.prems by (auto simp: filter_id_conv)
  have "drop_duplicates ((x # xs) @ ys) = x # drop_duplicates (xs @ filter (\<lambda>y. y \<noteq> x) ys)"
    by (simp add: f)
  also have "\<dots> = x # xs @ drop_duplicates (filter (\<lambda>y. y \<notin> set xs) (filter (\<lambda>y. y \<noteq> x) ys))"
    using Cons by simp
  also have "filter (\<lambda>y. y \<notin> set xs) (filter (\<lambda>y. y \<noteq> x) ys) = filter (\<lambda>y. y \<notin> set (x # xs)) ys"
    by (auto intro: filter_cong)
  finally show ?case by simp
qed

lemma try_map_InrD: "try_map f xs = Inr ys \<Longrightarrow> list_all2 (\<lambda>x y. f x = Inr y) xs ys"
  by (induction xs arbitrary: ys) (auto split: sum.splits)

lemma try_map_InrI: "list_all2 (\<lambda>x y. f x = Inr y) xs ys \<Longrightarrow> try_map f xs = Inr ys"
  by (induction rule: list_all2_induct) auto

lemma map_fst_row_series [simp]: "map fst (row_series df r) = columns df"
  by (simp add: row_series_def map_fst_zip_take)

lemma series_get_set_item:
  "series_get (set_item s k v) c = (if c = k then v else series_get s c)"
  by (induction s k v rule: set_item.induct) (auto simp: series_get_def)

lemma map_fst_set_item:
  "map fst (set_item s k v) = (if k \<in> set (map fst s) then map fst s else map fst s @ [k])"
  by (induction s k v rule: set_item.induct) auto

lemma series_get_absent: "c \<notin> set (map fst s) \<Longrightarrow> series_get s c = Null"
  by (simp add: series_get_def map_of_eq_None_iff [THEN iffD2] image_iff split: option.splits) 

lemma row_series_frame_of_series [simp]:
  "row_series (frame_of_series s) (map snd s) = s"
  by (simp add: row_series_def frame_of_series_def zip_map_fst_snd)

lemma frame_series_frame_of_series [simp]: "frame_series [frame_of_series s] = [s]"
  by (simp add: frame_series_def frame_of_series_def row_series_def zip_map_fst_snd)

lemma frame_series_Cons: "frame_series (f # fs) = map (row_series f) (rows f) @ frame_series fs"
  by (simp add: frame_series_def)

lemma frame_series_append: "frame_series (fs @ gs) = frame_series fs @ frame_series gs"
  by (simp add: frame_series_def)

lemma cell_at_map:
  "columns df = cols \<Longrightarrow> cell_at df (map f cols) c = (if c \<in> set cols then f c else Null)"
  by (simp add: cell_at_def row_series_def series_get_def map_of_zip_map)

lemma rows_concat_frames_aux:
  "concat (map (\<lambda>f. map (\<lambda>r. map (cell_at f r) cols) (rows f)) fs) =
   map (\<lambda>s. map (series_get s) cols) (concat (map (\<lambda>f. map (row_series f) (rows f)) fs))"
  by (induction fs) (simp_all add: cell_at_def)

lemma rows_concat_frames:
  "rows (concat_frames fs) =
     map (\<lambda>s. map (series_get s) (columns (concat_frames fs))) (frame_series fs)"
  by (simp add: concat_frames_def frame_series_def Let_def rows_concat_frames_aux)

lemma columns_concat_frames:
  "columns (concat_frames fs) = drop_duplicates (concat (map columns fs))"
  by (simp add: concat_frames_def Let_def)

lemma fillna_column_Inr:
  assumes "fillna_column df c v = Inr df'"
  shows "c \<in> set (columns df)" and "columns df' = columns df"
    and "rows df' = map (\<lambda>r. map (\<lambda>col. if col = c \<and> cell_at df r col = Null then v
                                         else cell_at df r col) (columns df)) (rows df)"
  using assms by (auto simp: fillna_column_def isna_def Let_def split: if_splits)

lemma fill_result_Inr:
  assumes "fill_result df = Inr out"
  shows "columns out = columns df"
    and "''matched_project_description'' \<in> set (columns df)"
    and "''match_score'' \<in> set (columns df)"
    and "''pid_ohl_nr'' \<in> set (columns df)"
    and "rows out = map (\<lambda>r. map (\<lambda>c. fill_value c (cell_at df r c)) (columns df)) (rows df)"
proof -
  from assms obtain df1 df2 where
    1: "fillna_column df ''matched_project_description'' (Str ''No Match'') = Inr df1" and
    2: "fillna_column df1 ''match_score'' (Num 0) = Inr df2" and
    3: "fillna_column df2 ''pid_ohl_nr'' (Str ''Not Available'') = Inr out"
    by (auto simp: fill_result_def split: sum.splits)
  note a = fillna_column_Inr [OF 1] and b = fillna_column_Inr [OF 2] and c = fillna_column_Inr [OF 3]
  show "columns out = columns df" using a b c by simp
  show "''matched_project_description'' \<in> set (columns df)" using a by simp
  show "''match_score'' \<in> set (columns df)" using a b by simp
  show "''pid_ohl_nr'' \<in> set (columns df)" using a b c by simp
  let ?cols = "columns df"
  have c1: "columns df1 = ?cols" and c2: "columns df2 = ?cols" using a b by simp_all
  show "rows out = map (\<lambda>r. map (\<lambda>c. fill_value c (cell_at df r c)) ?cols) (rows df)"
    unfolding c(3) b(3) a(3) c1 c2 map_map comp_def
    by (rule map_cong [OF refl], rule map_cong [OF refl])
       (auto simp add: cell_at_map [OF c1] cell_at_map [OF c2] fill_value_def)
qed

lemma labels_set_item: "fst ` set (set_item s k v) = insert k (fst ` set s)"
  by (induction s k v rule: set_item.induct) auto

lemma fold_pid_columns_get:
  "c \<in> set (map fst nr) \<Longrightarrow>
   series_get (fold (\<lambda>col nr. if col \<notin> set (map fst nr) \<and> col \<notin> set [''project'', ''shire'']
        then set_item nr col (series_get mr col) else nr) cols nr) c = series_get nr c"
proof (induction cols arbitrary: nr)
  case Nil
  show ?case by simp
next
  case (Cons col cols)
  let ?g = "\<lambda>col nr. if col \<notin> set (map fst nr) \<and> col \<notin> set [''project'', ''shire'']
        then set_item nr col (series_get mr col) else nr"
  have 1: "c \<in> set (map fst (?g col nr))"
    using Cons.prems by (simp add: labels_set_item)
  have 2: "series_get (?g col nr) c = series_get nr c"
    using Cons.prems by (auto simp: series_get_set_item)
  have "series_get (fold ?g (col # cols) nr) c = series_get (fold ?g cols (?g col nr)) c"
    by simp
  also have "\<dots> = series_get (?g col nr) c" using 1 by (rule Cons.IH)
  finally show ?case using 2 by simp
qed

lemma fold_pid_columns_labels:
  "\<exists>extra. map fst (fold (\<lambda>col nr. if col \<notin> set (map fst nr) \<and> col \<notin> set [''project'', ''shire'']
        then set_item nr col (series_get mr col) else nr) cols nr) = map fst nr @ extra \<and>
      set extra \<subseteq> set cols"
proof (induction cols arbitrary: nr)
  case Nil
  show ?case by simp
next
  case (Cons col cols)
  let ?g = "\<lambda>col nr. if col \<notin> set (map fst nr) \<and> col \<notin> set [''project'', ''shire'']
        then set_item nr col (series_get mr col) else nr"
  from Cons.IH [of "?g col nr"] obtain extra where
    e: "map fst (fold ?g cols (?g col nr)) = map fst (?g col nr) @ extra" "set extra \<subseteq> set cols"
    by blast
  have "\<exists>e0. map fst (?g col nr) = map fst nr @ e0 \<and> set e0 \<subseteq> {col}"
    by (auto simp: map_fst_set_item)
  then obtain e0 where e0: "map fst (?g col nr) = map fst nr @ e0" "set e0 \<subseteq> {col}" by blast
  have "map fst (fold ?g (col # cols) nr) = map fst nr @ (e0 @ extra)"
    using e(1) e0(1) by simp
  moreover have "set (e0 @ extra) \<subseteq> set (col # cols)"
    using e(2) e0(2) by auto
  ultimately show ?case by blast
qed

lemma add_pid_columns_get:
  "c \<in> set (map fst nr) \<Longrightarrow> series_get (add_pid_columns ps mr nr) c = series_get nr c"
  unfolding add_pid_columns_def by (rule fold_pid_columns_get)

lemma add_pid_columns_labels:
  "\<exists>extra. map fst (add_pid_columns ps mr nr) = map fst nr @ extra \<and> set extra \<subseteq> set (columns ps)"
  unfolding add_pid_columns_def by (rule fold_pid_columns_labels)

section \<open>Structure of the matching loops\<close>

lemma labels_ext_set_item:
  assumes "\<exists>e. map fst s = base @ e \<and> set e \<subseteq> A"
  shows "\<exists>e. map fst (set_item s k v) = base @ e \<and> set e \<subseteq> insert k A"
proof -
  from assms obtain e where e: "map fst s = base @ e" "set e \<subseteq> A" by blast
  show ?thesis
  proof (cases "k \<in> set (map fst s)")
    case True
    then have "map fst (set_item s k v) = base @ e" by (simp add: map_fst_set_item e)
    with e(2) show ?thesis by blast
  next
    case False
    then have "map fst (set_item s k v) = base @ (e @ [k])" by (simp add: map_fst_set_item e)
    moreover have "set (e @ [k]) \<subseteq> insert k A" using e(2) by auto
    ultimately show ?thesis by blast
  qed
qed

lemma labels_ext_add_pid_columns:
  assumes "\<exists>e. map fst s = base @ e \<and> set e \<subseteq> A"
  shows "\<exists>e. map fst (add_pid_columns ps mr s) = base @ e \<and> set e \<subseteq> A \<union> set (columns ps)"
proof -
  from assms obtain e where e: "map fst s = base @ e" "set e \<subseteq> A" by blast
  from add_pid_columns_labels [of ps mr s] obtain e' where
    e': "map fst (add_pid_columns ps mr s) = map fst s @ e'" "set e' \<subseteq> set (columns ps)"
    by blast
  have "map fst (add_pid_columns ps mr s) = base @ (e @ e')" by (simp add: e e')
  moreover have "set (e @ e') \<subseteq> A \<union> set (columns ps)" using e(2) e'(2) by auto
  ultimately show ?thesis by blast
qed

lemma make_new_row_labels:
  "\<exists>extra. map fst (make_new_row ps mr ar bm sc) = map fst ar @ extra \<and>
     set extra \<subseteq> set assigned_cols \<union> set (columns ps)"
proof -
  have 0: "\<exists>e. map fst ar = map fst ar @ e \<and> set e \<subseteq> {}" by simp
  have a: "insert ''project_description'' (insert ''pid_ohl_nr'' (insert ''match_score''
      (insert ''matched_project_description'' {}))) = set assigned_cols"
    unfolding assigned_cols_def by (simp add: insert_commute)
  show ?thesis
    unfolding make_new_row_def a [symmetric]
    by (intro labels_ext_add_pid_columns labels_ext_set_item 0)
qed

lemma make_new_row_assigned:
  "series_get (make_new_row ps mr ar bm sc) ''matched_project_description'' = bm"
  "series_get (make_new_row ps mr ar bm sc) ''match_score'' = Num sc"
  "series_get (make_new_row ps mr ar bm sc) ''pid_ohl_nr'' = series_get mr ''pid_ohl_nr''"
  "series_get (make_new_row ps mr ar bm sc) ''project_description'' = bm"
  by (simp_all add: make_new_row_def add_pid_columns_get labels_set_item series_get_set_item)

lemma make_new_row_other:
  "c \<in> set (map fst ar) \<Longrightarrow> c \<notin> set assigned_cols \<Longrightarrow>
   series_get (make_new_row ps mr ar bm sc) c = series_get ar c"
  by (simp add: make_new_row_def add_pid_columns_get labels_set_item series_get_set_item
      assigned_cols_def)

lemma filter_eq_ConsD: "filter P xs = y # ys \<Longrightarrow> y \<in> set xs \<and> P y"
proof -
  assume "filter P xs = y # ys"
  then have "y \<in> set (filter P xs)" by simp
  then show ?thesis by simp
qed

lemma match_row_Inr:
  assumes "match_row env ps ar = Inr f"
  shows "(f = frame_of_series ar \<and>
          (series_get ar ''segmentdesc'' = Null \<or>
           \<not> (\<exists>bm sc. find_best_match env (series_get ar ''segmentdesc'')
                          (Some (pid_descriptions ps)) 75 = (Some bm, sc) \<and>
                        truthy bm \<and> 75 \<le> sc))) \<or>
         (\<exists>bm sc r. series_get ar ''segmentdesc'' \<noteq> Null \<and>
            find_best_match env (series_get ar ''segmentdesc'')
               (Some (pid_descriptions ps)) 75 = (Some bm, sc) \<and>
            truthy bm \<and> 75 \<le> sc \<and> r \<in> set (rows ps) \<and>
            cell_eq (cell_at ps r ''project_description'') bm \<and>
            f = frame_of_series (make_new_row ps (row_series ps r) ar bm sc))"
proof (cases "series_get ar ''segmentdesc'' = Null")
  case True
  with assms show ?thesis by (simp add: match_row_def isna_def)
next
  case False
  obtain bmo sc where fb: "find_best_match env (series_get ar ''segmentdesc'')
      (Some (pid_descriptions ps)) 75 = (bmo, sc)"
    by (cases "find_best_match env (series_get ar ''segmentdesc'') (Some (pid_descriptions ps)) 75")
  show ?thesis
  proof (cases "\<exists>bm. bmo = Some bm \<and> truthy bm \<and> 75 \<le> sc")
    case True
    then obtain bm where bm: "bmo = Some bm" "truthy bm" "75 \<le> sc" by blast
    let ?sel = "filter (\<lambda>r. cell_eq (cell_at ps r ''project_description'') bm) (rows ps)"
    from assms False fb bm obtain r rest where
      sel: "?sel = r # rest" and f: "f = frame_of_series (make_new_row ps (row_series ps r) ar bm sc)"
      by (cases ?sel) (auto simp: match_row_def isna_def)
    from filter_eq_ConsD [OF sel] False fb bm f show ?thesis by blast
  next
    case no: False
    with assms False fb have "f = frame_of_series ar"
      by (cases bmo) (auto simp: match_row_def isna_def split: if_splits)
    with no fb show ?thesis by auto
  qed
qed

lemma key_subset_simps [simp]:
  "columns (key_subset df a b) = columns df"
  "row_series (key_subset df a b) = row_series df"
  "cell_at (key_subset df a b) = cell_at df"
  by (simp_all add: key_subset_def row_series_def cell_at_def fun_eq_iff)

lemma list_all2_right_ex:
  "list_all2 P xs ys \<Longrightarrow> y \<in> set ys \<Longrightarrow> \<exists>x\<in>set xs. P x y"
  by (induction rule: list_all2_induct) auto

lemma rows_key_subset:
  "rows (key_subset df a b) =
     filter (\<lambda>r. cell_eq (cell_at df r ''project'') a \<and> cell_eq (cell_at df r ''shire'') b) (rows df)"
  by (simp add: key_subset_def)

lemma in_key_subset:
  "r \<in> set (rows (key_subset df a b)) \<Longrightarrow>
   r \<in> set (rows df) \<and> cell_at df r ''project'' = a \<and> cell_at df r ''shire'' = b \<and>
   a \<noteq> Null \<and> b \<noteq> Null"
  by (auto simp: rows_key_subset cell_eq_def)

lemma frames_of_rows:
  "list_all2 (\<lambda>x f. match_row env ps x = Inr f) xs fs \<Longrightarrow>
   list_all2 (\<lambda>x s. match_row env ps x = Inr (frame_of_series s)) xs (frame_series fs)"
proof (induction rule: list_all2_induct)
  case Nil
  show ?case by (simp add: frame_series_def)
next
  case (Cons x xs f fs)
  from match_row_Inr [OF Cons(1)] obtain s where s: "f = frame_of_series s" by blast
  have "frame_series (f # fs) = s # frame_series fs"
    using frame_series_append [of "[f]" fs] by (simp add: s)
  with Cons s show ?case by simp
qed

lemma match_row_columns:
  assumes "match_row env ps ar = Inr f"
  shows "\<exists>extra. columns f = map fst ar @ extra \<and> set extra \<subseteq> set assigned_cols \<union> set (columns ps)"
proof -
  from match_row_Inr [OF assms] consider "f = frame_of_series ar"
    | bm sc r where "f = frame_of_series (make_new_row ps (row_series ps r) ar bm sc)"
    by blast
  then show ?thesis
  proof cases
    case 1
    then show ?thesis by (simp add: frame_of_series_def)
  next
    case 2
    with make_new_row_labels [of ps "row_series ps r" ar bm sc] show ?thesis
      by (simp add: frame_of_series_def)
  qed
qed

lemma match_combination_Inr:
  assumes "match_combination env agg pid k = Inr fs"
  shows "list_all2 (row_outcome env agg pid) (rows (key_subset agg (fst k) (snd k))) (frame_series fs)"
    and "\<forall>f\<in>set fs. \<exists>extra. columns f = columns agg @ extra \<and>
            set extra \<subseteq> set assigned_cols \<union> set (columns pid)"
proof -
  let ?as = "key_subset agg (fst k) (snd k)"
  let ?ps = "key_subset pid (fst k) (snd k)"
  have key: "key_subset pid (cell_at agg r ''project'') (cell_at agg r ''shire'') = ?ps"
    if "r \<in> set (rows ?as)" for r
    using in_key_subset [OF that] by simp
  show "list_all2 (row_outcome env agg pid) (rows ?as) (frame_series fs)"
  proof (cases "df_empty ?ps")
    case True
    with assms have fs: "fs = [?as]" by (simp add: match_combination_def Let_def)
    have "list_all2 (\<lambda>r s. s = row_series agg r) (rows ?as) (map (row_series agg) (rows ?as))"
      by (simp add: list_all2_map2 list_all2_same)
    then have "list_all2 (row_outcome env agg pid) (rows ?as) (map (row_series agg) (rows ?as))"
      by (rule list.rel_mono_strong) (simp add: row_outcome_def Let_def key True)
    then show ?thesis by (simp add: fs frame_series_def)
  next
    case False
    with assms have "try_map (match_row env ?ps) (map (row_series agg) (rows ?as)) = Inr fs"
      by (simp add: match_combination_def Let_def)
    from frames_of_rows [OF try_map_InrD [OF this]]
    have "list_all2 (\<lambda>r s. match_row env ?ps (row_series agg r) = Inr (frame_of_series s))
        (rows ?as) (frame_series fs)"
      by (simp add: list_all2_map1)
    then show ?thesis
      by (rule list.rel_mono_strong) (simp add: row_outcome_def Let_def key False)
  qed
  show "\<forall>f\<in>set fs. \<exists>extra. columns f = columns agg @ extra \<and>
            set extra \<subseteq> set assigned_cols \<union> set (columns pid)"
  proof (cases "df_empty ?ps")
    case True
    with assms have fs: "fs = [?as]" by (simp add: match_combination_def Let_def)
    show ?thesis by (simp add: fs)
  next
    case False
    with assms have "try_map (match_row env ?ps) (map (row_series agg) (rows ?as)) = Inr fs"
      by (simp add: match_combination_def Let_def)
    from try_map_InrD [OF this]
    have l: "list_all2 (\<lambda>r f. match_row env ?ps (row_series agg r) = Inr f) (rows ?as) fs"
      by (simp add: list_all2_map1)
    show ?thesis
    proof
      fix f assume "f \<in> set fs"
      from list_all2_right_ex [OF l this]
      obtain r where "match_row env ?ps (row_series agg r) = Inr f" by blast
      from match_row_columns [OF this]
      show "\<exists>extra. columns f = columns agg @ extra \<and>
            set extra \<subseteq> set assigned_cols \<union> set (columns pid)"
        by simp
    qed
  qed
qed

lemma match_combination_nonempty:
  assumes "r \<in> set (rows agg)"
    and "match_combination env agg pid (cell_at agg r ''project'', cell_at agg r ''shire'') = Inr fs"
  shows "fs \<noteq> []"
proof -
  let ?a = "cell_at agg r ''project''" and ?b = "cell_at agg r ''shire''"
  let ?as = "key_subset agg ?a ?b"
  let ?ps = "key_subset pid ?a ?b"
  show ?thesis
  proof (cases "df_empty ?ps")
    case True
    with assms(2) show ?thesis by (auto simp: match_combination_def Let_def)
  next
    case False
    then have "rows ?ps \<noteq> []" by (simp add: df_empty_def)
    then have "?a \<noteq> Null \<and> ?b \<noteq> Null"
      by (auto simp: rows_key_subset cell_eq_def filter_empty_conv)
    with assms(1) have "r \<in> set (rows ?as)" by (simp add: rows_key_subset cell_eq_def)
    moreover from False assms(2)
    have "try_map (match_row env ?ps) (map (row_series agg) (rows ?as)) = Inr fs"
      by (simp add: match_combination_def Let_def)
    from try_map_InrD [OF this] have "length (rows ?as) = length fs"
      by (auto dest: list_all2_lengthD)
    ultimately show ?thesis by auto
  qed
qed

lemma list_all2_concat_groups:
  "list_all2 (\<lambda>k fs. list_all2 R (g k) (frame_series fs)) ks fss \<Longrightarrow>
   list_all2 R (concat (map g ks)) (frame_series (concat fss))"
proof (induction rule: list_all2_induct)
  case Nil
  show ?case by (simp add: frame_series_def)
next
  case (Cons k ks fs fss)
  then show ?case by (simp add: frame_series_append list_all2_appendI)
qed

lemma match_all_Inr:
  assumes "try_map (match_combination env agg pid) (unique_combinations agg) = Inr appended"
  shows "list_all2 (row_outcome env agg pid) (grouped_rows agg) (frame_series (concat appended))"
    and "\<forall>f\<in>set (concat appended). \<exists>extra. columns f = columns agg @ extra \<and>
            set extra \<subseteq> set assigned_cols \<union> set (columns pid)"
    and "rows agg \<noteq> [] \<Longrightarrow> concat appended \<noteq> []"
proof -
  note l = try_map_InrD [OF assms]
  have "list_all2 (\<lambda>k fs. list_all2 (row_outcome env agg pid)
          (rows (key_subset agg (fst k) (snd k))) (frame_series fs)) (unique_combinations agg) appended"
    using l by (rule list.rel_mono_strong) (rule match_combination_Inr(1))
  from list_all2_concat_groups [OF this]
  show "list_all2 (row_outcome env agg pid) (grouped_rows agg) (frame_series (concat appended))"
    by (simp add: grouped_rows_def)
  show "\<forall>f\<in>set (concat appended). \<exists>extra. columns f = columns agg @ extra \<and>
            set extra \<subseteq> set assigned_cols \<union> set (columns pid)"
  proof
    fix f assume "f \<in> set (concat appended)"
    then obtain fs where fs: "fs \<in> set appended" "f \<in> set fs" by auto
    from list_all2_right_ex [OF l fs(1)]
    obtain k where "match_combination env agg pid k = Inr fs" by blast
    from match_combination_Inr(2) [OF this] fs(2)
    show "\<exists>extra. columns f = columns agg @ extra \<and>
            set extra \<subseteq> set assigned_cols \<union> set (columns pid)"
      by blast
  qed
  show "concat appended \<noteq> []" if "rows agg \<noteq> []"
  proof -
    from that obtain r rs where r: "rows agg = r # rs" by (cases "rows agg") auto
    then obtain ks where
      "unique_combinations agg = (cell_at agg r ''project'', cell_at agg r ''shire'') # ks"
      by (simp add: unique_combinations_def)
    with l obtain fs fss where a: "appended = fs # fss"
      and "match_combination env agg pid (cell_at agg r ''project'', cell_at agg r ''shire'') = Inr fs"
      by (auto simp: list_all2_Cons1)
    from match_combination_nonempty [OF _ this(2)] r have "fs \<noteq> []" by simp
    with a show ?thesis by simp
  qed
qed

section \<open>Structure of the result of merge_with_pid_fuzzy\<close>

lemma merge_reconciled_fill:
  assumes "reconcilable agg pid"
    and "snd (merge_with_pid_fuzzy env agg (Some pid)) = Inr out"
  shows "\<exists>appended. try_map (match_combination env agg pid) (unique_combinations agg) = Inr appended \<and>
           concat appended \<noteq> [] \<and> fill_result (concat_frames (concat appended)) = Inr out"
proof -
  from assms(1) have g: "\<not> df_empty agg" "missing_cols required_agg_cols agg = []"
    "missing_cols required_pid_cols pid = []"
    by (simp_all add: reconcilable_def)
  then have r: "rows agg \<noteq> []" by (simp add: df_empty_def)
  obtain appended where a: "try_map (match_combination env agg pid) (unique_combinations agg) = Inr appended"
    using assms(2) g
    by (cases "try_map (match_combination env agg pid) (unique_combinations agg)")
       (simp_all add: merge_with_pid_fuzzy_def Let_def)
  from match_all_Inr(3) [OF a r] have ne: "concat appended \<noteq> []" .
  have "fill_result (concat_frames (concat appended)) = Inr out"
    using assms(2) g a ne
    by (simp add: merge_with_pid_fuzzy_def Let_def split: sum.splits)
  with a ne show ?thesis by blast
qed

lemma frame_of_series_inj: "frame_of_series s = frame_of_series t \<Longrightarrow> s = t"
  by (auto simp: frame_of_series_def intro: pair_list_eqI)
lemma series_get_row_series: "series_get (row_series df r) c = cell_at df r c"
  by (simp add: cell_at_def)

lemma row_outcome_passthrough:
  assumes "row_outcome env agg pid r s"
    and "c \<in> set (columns agg)" and "c \<notin> set assigned_cols"
  shows "series_get s c = cell_at agg r c"
proof -
  let ?ps = "key_subset pid (cell_at agg r ''project'') (cell_at agg r ''shire'')"
  show ?thesis
  proof (cases "df_empty ?ps")
    case True
    with assms(1) show ?thesis by (simp add: row_outcome_def Let_def cell_at_def)
  next
    case False
    with assms(1) have "match_row env ?ps (row_series agg r) = Inr (frame_of_series s)"
      by (simp add: row_outcome_def Let_def)
    from match_row_Inr [OF this] consider "frame_of_series s = frame_of_series (row_series agg r)"
      | bm sc p where "frame_of_series s =
          frame_of_series (make_new_row ?ps (row_series ?ps p) (row_series agg r) bm sc)"
      by blast
    then show ?thesis
    proof cases
      case 1
      then have "s = row_series agg r"
        by (rule frame_of_series_inj)
      then show ?thesis by (simp add: cell_at_def)
    next
      case 2
      then have "s = make_new_row ?ps (row_series ?ps p) (row_series agg r) bm sc"
        by (rule frame_of_series_inj)
      with assms(2,3) show ?thesis by (simp add: make_new_row_other cell_at_def)
    qed
  qed
qed

lemma filled_rows:
  assumes "fill_result (concat_frames fs) = Inr out"
  shows "rows out = map (\<lambda>s. map (\<lambda>c. fill_value c (series_get s c)) (columns out)) (frame_series fs)"
proof -
  let ?cf = "concat_frames fs"
  note fr = fill_result_Inr [OF assms]
  have rc: "rows ?cf = map (\<lambda>s. map (series_get s) (columns ?cf)) (frame_series fs)"
    by (rule rows_concat_frames)
  have cell: "map (\<lambda>c. fill_value c (cell_at ?cf (map (series_get s) (columns ?cf)) c)) (columns ?cf) =
      map (\<lambda>c. fill_value c (series_get s c)) (columns ?cf)" for s
    by (rule map_cong [OF refl]) (simp add: cell_at_map [OF refl])
  have "rows out = map (\<lambda>r. map (\<lambda>c. fill_value c (cell_at ?cf r c)) (columns ?cf)) (rows ?cf)"
    by (rule fr(5))
  also have "\<dots> = map (\<lambda>s. map (\<lambda>c. fill_value c (cell_at ?cf (map (series_get s) (columns ?cf)) c))
        (columns ?cf)) (frame_series fs)"
    by (subst rc) (simp only: map_map comp_def)
  also have "\<dots> = map (\<lambda>s. map (\<lambda>c. fill_value c (series_get s c)) (columns ?cf)) (frame_series fs)"
    by (simp only: cell)
  finally show ?thesis by (simp only: fr(1))
qed

lemma concat_columns_prefix:
  assumes "fs \<noteq> []"
    and "\<forall>f\<in>set fs. \<exists>extra. columns f = base @ extra \<and> set extra \<subseteq> A"
  shows "\<exists>rest. concat (map columns fs) = base @ rest \<and> set rest \<subseteq> set base \<union> A"
proof -
  from assms(1) obtain f0 fs' where fs: "fs = f0 # fs'" by (cases fs) auto
  from assms(2) fs obtain e0 where e0: "columns f0 = base @ e0" "set e0 \<subseteq> A" by auto
  have "set (concat (map columns fs')) \<subseteq> set base \<union> A"
  proof
    fix c assume "c \<in> set (concat (map columns fs'))"
    then obtain f where f: "f \<in> set fs'" "c \<in> set (columns f)" by auto
    from f(1) fs have "f \<in> set fs" by simp
    with assms(2) obtain e where "columns f = base @ e" "set e \<subseteq> A" by blast
    with f(2) show "c \<in> set base \<union> A" by auto
  qed
  with e0(2) have "set (e0 @ concat (map columns fs')) \<subseteq> set base \<union> A" by auto
  moreover have "concat (map columns fs) = base @ (e0 @ concat (map columns fs'))"
    by (simp add: fs e0(1))
  ultimately show ?thesis by blast
qed

lemma merge_reconciled:
  assumes "reconcilable agg pid"
    and "snd (merge_with_pid_fuzzy env agg (Some pid)) = Inr out"
  shows "list_all2 (\<lambda>r r'. \<exists>s. row_outcome env agg pid r s \<and>
            r' = map (\<lambda>c. fill_value c (series_get s c)) (columns out))
          (grouped_rows agg) (rows out)"
    and "''matched_project_description'' \<in> set (columns out)"
    and "''match_score'' \<in> set (columns out)"
    and "''pid_ohl_nr'' \<in> set (columns out)"
    and "\<exists>rest. columns out = drop_duplicates (columns agg @ rest) \<and>
           set rest \<subseteq> set (columns agg) \<union> (set assigned_cols \<union> set (columns pid))"
proof -
  from merge_reconciled_fill [OF assms] obtain appended where
    a: "try_map (match_combination env agg pid) (unique_combinations agg) = Inr appended" and
    ne: "concat appended \<noteq> []" and
    f: "fill_result (concat_frames (concat appended)) = Inr out"
    by blast
  note fr = fill_result_Inr [OF f]
  show "''matched_project_description'' \<in> set (columns out)"
    using fr(1,2) by simp
  show "''match_score'' \<in> set (columns out)" using fr(1,3) by simp
  show "''pid_ohl_nr'' \<in> set (columns out)" using fr(1,4) by simp
  note ro = filled_rows [OF f]
  have "list_all2 (row_outcome env agg pid) (grouped_rows agg) (frame_series (concat appended))"
    by (rule match_all_Inr(1) [OF a])
  then have "list_all2 (\<lambda>r s. \<exists>s'. row_outcome env agg pid r s' \<and>
        map (\<lambda>c. fill_value c (series_get s c)) (columns out) =
        map (\<lambda>c. fill_value c (series_get s' c)) (columns out))
      (grouped_rows agg) (frame_series (concat appended))"
    by (rule list_all2_mono) blast
  then show "list_all2 (\<lambda>r r'. \<exists>s. row_outcome env agg pid r s \<and>
            r' = map (\<lambda>c. fill_value c (series_get s c)) (columns out))
          (grouped_rows agg) (rows out)"
    by (simp only: ro list_all2_map2)
  from concat_columns_prefix [OF ne match_all_Inr(2) [OF a]] obtain rest where
    "concat (map columns (concat appended)) = columns agg @ rest"
    "set rest \<subseteq> set (columns agg) \<union> (set assigned_cols \<union> set (columns pid))"
    by blast
  moreover have "columns out = drop_duplicates (concat (map columns (concat appended)))"
    by (simp only: fr(1) columns_concat_frames)
  ultimately show "\<exists>rest. columns out = drop_duplicates (columns agg @ rest) \<and>
           set rest \<subseteq> set (columns agg) \<union> (set assigned_cols \<union> set (columns pid))"
    by auto
qed



lemma grouped_rows_member:
  "r \<in> set (grouped_rows agg) \<Longrightarrow>
   r \<in> set (rows agg) \<and> cell_at agg r ''project'' \<noteq> Null \<and> cell_at agg r ''shire'' \<noteq> Null"
  by (auto simp: grouped_rows_def dest: in_key_subset)

text \<open>The two ways in which a row of the aggregated table is turned into an output series.\<close>

lemma row_outcome_cases:
  assumes "row_outcome env agg pid r s"
  shows "(s = row_series agg r \<and>
          (rows (key_subset pid (cell_at agg r ''project'') (cell_at agg r ''shire'')) = [] \<or>
           columns pid = [] \<or>
           cell_at agg r ''segmentdesc'' = Null \<or>
           \<not> (\<exists>bm sc. find_best_match env (cell_at agg r ''segmentdesc'')
                  (Some (pid_descriptions
                     (key_subset pid (cell_at agg r ''project'') (cell_at agg r ''shire'')))) 75 =
                  (Some bm, sc) \<and> truthy bm \<and> 75 \<le> sc))) \<or>
         (\<exists>bm sc p.
            s = make_new_row (key_subset pid (cell_at agg r ''project'') (cell_at agg r ''shire''))
                  (row_series pid p) (row_series agg r) bm sc \<and>
            p \<in> set (rows pid) \<and>
            cell_at pid p ''project'' = cell_at agg r ''project'' \<and>
            cell_at pid p ''shire'' = cell_at agg r ''shire'' \<and>
            cell_at agg r ''project'' \<noteq> Null \<and> cell_at agg r ''shire'' \<noteq> Null \<and>
            cell_at pid p ''project_description'' = bm \<and>
            cell_at agg r ''segmentdesc'' \<noteq> Null \<and>
            find_best_match env (cell_at agg r ''segmentdesc'')
               (Some (pid_descriptions
                  (key_subset pid (cell_at agg r ''project'') (cell_at agg r ''shire'')))) 75 =
               (Some bm, sc) \<and>
            truthy bm \<and> 75 \<le> sc)"
proof -
  let ?ps = "key_subset pid (cell_at agg r ''project'') (cell_at agg r ''shire'')"
  show ?thesis
  proof (cases "df_empty ?ps")
    case True
    with assms have "s = row_series agg r"
      "rows ?ps = [] \<or> columns pid = []"
      by (simp_all add: row_outcome_def Let_def df_empty_def)
    then show ?thesis by blast
  next
    case False
    with assms have m: "match_row env ?ps (row_series agg r) = Inr (frame_of_series s)"
      by (simp add: row_outcome_def Let_def)
    from match_row_Inr [OF m] show ?thesis
    proof
      assume "frame_of_series s = frame_of_series (row_series agg r) \<and>
          (series_get (row_series agg r) ''segmentdesc'' = Null \<or>
           \<not> (\<exists>bm sc. find_best_match env (series_get (row_series agg r) ''segmentdesc'')
                          (Some (pid_descriptions ?ps)) 75 = (Some bm, sc) \<and>
                        truthy bm \<and> 75 \<le> sc))"
      then show ?thesis
        by (auto simp: series_get_row_series dest: frame_of_series_inj)
    next
      assume "\<exists>bm sc p. series_get (row_series agg r) ''segmentdesc'' \<noteq> Null \<and>
            find_best_match env (series_get (row_series agg r) ''segmentdesc'')
               (Some (pid_descriptions ?ps)) 75 = (Some bm, sc) \<and>
            truthy bm \<and> 75 \<le> sc \<and> p \<in> set (rows ?ps) \<and>
            cell_eq (cell_at ?ps p ''project_description'') bm \<and>
            frame_of_series s = frame_of_series (make_new_row ?ps (row_series ?ps p) (row_series agg r) bm sc)"
      then obtain bm sc p where
        a: "series_get (row_series agg r) ''segmentdesc'' \<noteq> Null"
          "find_best_match env (series_get (row_series agg r) ''segmentdesc'')
               (Some (pid_descriptions ?ps)) 75 = (Some bm, sc)"
          "truthy bm" "75 \<le> sc" "p \<in> set (rows ?ps)"
          "cell_eq (cell_at ?ps p ''project_description'') bm"
          "frame_of_series s = frame_of_series (make_new_row ?ps (row_series ?ps p) (row_series agg r) bm sc)"
        by blast
      note k = in_key_subset [OF a(5)]
      from a(7) have s: "s = make_new_row ?ps (row_series pid p) (row_series agg r) bm sc"
        by (simp add: frame_of_series_inj)
      from a(6) have d: "cell_at pid p ''project_description'' = bm" by (simp add: cell_eq_def)
      from a(1,2) have "cell_at agg r ''segmentdesc'' \<noteq> Null"
        "find_best_match env (cell_at agg r ''segmentdesc'') (Some (pid_descriptions ?ps)) 75 = (Some bm, sc)"
        by (simp_all add: series_get_row_series)
      with s k d a(3,4) show ?thesis by blast
    qed
  qed
qed

lemma out_cell:
  assumes "r' = map (\<lambda>c. fill_value c (series_get s c)) (columns out)" and "c \<in> set (columns out)"
  shows "cell_at out r' c = fill_value c (series_get s c)"
  using assms by (simp add: cell_at_map [OF refl])

lemma truthy_not_Null: "truthy v \<Longrightarrow> v \<noteq> Null"
  by (cases v) auto

section \<open>The claims about merge_with_pid_fuzzy\<close>

lemma sample_result:
  "merge_with_pid_fuzzy sample_lib agg_sample (Some pid_sample) =
     ([Sidebar_info 2, Sidebar_success 1 4], Inr out_sample)"
  by code_simp

lemma sample_reconcilable: "reconcilable agg_sample pid_sample"
  by code_simp


lemma missing_cols_set: "set (missing_cols required df) = set required - set (columns df)"
  by (auto simp: missing_cols_def)

lemma try_map_all_Inr:
  assumes "\<forall>x\<in>set xs. \<exists>y. f x = Inr y \<and> P y"
  shows "\<exists>ys. try_map f xs = Inr ys \<and> (\<forall>y\<in>set ys. P y) \<and> length ys = length xs"
  using assms
proof (induction xs)
  case Nil
  show ?case by simp
next
  case (Cons x xs)
  from Cons.prems obtain y where y: "f x = Inr y" "P y" by auto
  from Cons obtain ys where ys: "try_map f xs = Inr ys" "\<forall>y\<in>set ys. P y" "length ys = length xs"
    by auto
  have "try_map f (x # xs) = Inr (y # ys)" by (simp add: y(1) ys(1))
  with y(2) ys(2,3) show ?case by auto
qed

lemma match_row_not_accepted:
  assumes "series_get agg_row ''segmentdesc'' = Null \<or>
      (case find_best_match env (series_get agg_row ''segmentdesc'')
              (Some (pid_descriptions pid_subset)) 75 of
         (None, sc) \<Rightarrow> True
       | (Some bm, sc) \<Rightarrow> \<not> (truthy bm \<and> 75 \<le> sc))"
  shows "match_row env pid_subset agg_row = Inr (frame_of_series agg_row)"
  using assms by (auto simp: match_row_def isna_def Let_def split: prod.splits option.splits)

lemma in_grouped_rows:
  assumes "r \<in> set (rows agg)"
    and "cell_at agg r ''project'' \<noteq> Null" and "cell_at agg r ''shire'' \<noteq> Null"
  shows "r \<in> set (grouped_rows agg)"
proof -
  let ?k = "(cell_at agg r ''project'', cell_at agg r ''shire'')"
  have "?k \<in> set (unique_combinations agg)"
    using assms(1) by (auto simp: unique_combinations_def)
  moreover have "r \<in> set (rows (key_subset agg (fst ?k) (snd ?k)))"
    using assms by (simp add: rows_key_subset cell_eq_def)
  ultimately have "\<exists>k\<in>set (unique_combinations agg).
      r \<in> set (rows (key_subset agg (fst k) (snd k)))"
    by (intro bexI [of _ ?k])
  then show ?thesis unfolding grouped_rows_def by auto
qed

lemma match_combination_nothing_accepted:
  assumes "\<forall>r\<in>set (grouped_rows agg). \<not> row_accepted env agg pid r"
  shows "\<exists>fs. match_combination env agg pid k = Inr fs \<and> (\<forall>f\<in>set fs. columns f = columns agg)"
proof -
  let ?as = "key_subset agg (fst k) (snd k)"
  let ?ps = "key_subset pid (fst k) (snd k)"
  show ?thesis
  proof (cases "df_empty ?ps")
    case True
    then show ?thesis by (simp add: match_combination_def Let_def)
  next
    case False
    have "\<exists>f. match_row env ?ps x = Inr f \<and> columns f = columns agg"
      if "x \<in> set (map (row_series agg) (rows ?as))" for x
    proof -
      from that obtain r where r: "r \<in> set (rows ?as)" "x = row_series agg r" by auto
      note k = in_key_subset [OF r(1)]
      from k have "r \<in> set (grouped_rows agg)" by (intro in_grouped_rows) auto
      with assms have "\<not> row_accepted env agg pid r" by blast
      then have "match_row env ?ps x = Inr (frame_of_series x)"
        unfolding r(2) using k
        by (intro match_row_not_accepted)
           (auto simp: row_accepted_def row_candidates_def series_get_row_series
                 split: prod.splits option.splits)
      moreover have "columns (frame_of_series x) = columns agg"
        by (simp add: frame_of_series_def r(2))
      ultimately show ?thesis by blast
    qed
    then have "\<forall>x\<in>set (map (row_series agg) (rows ?as)).
        \<exists>f. match_row env ?ps x = Inr f \<and> columns f = columns agg"
      by blast
    from try_map_all_Inr [OF this] False show ?thesis
      by (auto simp: match_combination_def Let_def)
  qed
qed

text \<open>
  Whenever no row is accepted, and the aggregated table has no column
  \<^verbatim>\<open>matched_project_description\<close> of its own, the call ends with \<^verbatim>\<open>KeyError\<close>.
\<close>

lemma merge_nothing_accepted:
  assumes "reconcilable agg pid"
    and "''matched_project_description'' \<notin> set (columns agg)"
    and "\<forall>r\<in>set (grouped_rows agg). \<not> row_accepted env agg pid r"
  shows "merge_with_pid_fuzzy env agg (Some pid) =
           ([Sidebar_info (length (unique_combinations agg))],
            Inl (KeyError ''matched_project_description''))"
proof -
  from assms(1) have g: "\<not> df_empty agg" "missing_cols required_agg_cols agg = []"
    "missing_cols required_pid_cols pid = []"
    by (simp_all add: reconcilable_def)
  then have r: "rows agg \<noteq> []" by (simp add: df_empty_def)
  have "\<forall>k\<in>set (unique_combinations agg).
      \<exists>fs. match_combination env agg pid k = Inr fs \<and> (\<forall>f\<in>set fs. columns f = columns agg)"
    using match_combination_nothing_accepted [OF assms(3)] by blast
  from try_map_all_Inr [OF this] obtain appended where
    a: "try_map (match_combination env agg pid) (unique_combinations agg) = Inr appended" and
    c: "\<forall>fs\<in>set appended. \<forall>f\<in>set fs. columns f = columns agg"
    by blast
  from match_all_Inr(3) [OF a r] have ne: "concat appended \<noteq> []" .
  from c have "set (concat (map columns (concat appended))) \<subseteq> set (columns agg)" by auto
  with assms(2) have "''matched_project_description'' \<notin>
      set (columns (concat_frames (concat appended)))"
    by (auto simp: columns_concat_frames)
  then have "fill_result (concat_frames (concat appended)) =
      Inl (KeyError ''matched_project_description'')"
    by (simp add: fill_result_def fillna_column_def)
  with g a ne show ?thesis
    by (simp add: merge_with_pid_fuzzy_def Let_def)
qed

text \<open>
  C4. The specification's second scenario (the reference row lies in another region, so no row
  of the ledger is accepted) does not produce sentinel rows: the first \<^verbatim>\<open>fillna\<close> reads the
  column \<^verbatim>\<open>matched_project_description\<close>, which no appended frame has, and the call ends
  with \<^verbatim>\<open>KeyError\<close>.
\<close>

theorem merge_no_match_raises:
  "merge_with_pid_fuzzy sample_lib agg_scenario (Some pid_scenario) =
     ([Sidebar_info 1], Inl (KeyError ''matched_project_description''))"
  by code_simp

text \<open>
  C5 (as the code has it). When a required column is absent on either side the aggregated
  table is returned as it is and nothing is matched. An empty aggregated table gives no
  message at all; otherwise there is exactly one warning, which lists the missing columns of
  the aggregated table if there are any and the missing columns of the reference table only
  when the aggregated table is complete. The listed columns are the required ones that the
  table lacks.
\<close>

theorem merge_missing_columns:
  assumes "missing_cols required_agg_cols agg \<noteq> [] \<or> missing_cols required_pid_cols pid \<noteq> []"
  shows "merge_with_pid_fuzzy env agg (Some pid) =
           ((if df_empty agg then []
             else if missing_cols required_agg_cols agg \<noteq> []
               then [Warning_missing_agg (missing_cols required_agg_cols agg)]
               else [Warning_missing_pid (missing_cols required_pid_cols pid)]),
            Inr agg) \<and>
         set (missing_cols required_agg_cols agg) = set required_agg_cols - set (columns agg) \<and>
         set (missing_cols required_pid_cols pid) = set required_pid_cols - set (columns pid)"
  using assms by (auto simp: merge_with_pid_fuzzy_def Let_def missing_cols_set)

theorem merge_missing_columns_witness:
  "missing_cols required_agg_cols agg_no_shire = [''shire''] \<and>
   merge_with_pid_fuzzy sample_lib agg_no_shire (Some pid_sample) =
     ([Warning_missing_agg [''shire'']], Inr agg_no_shire)"
proof -
  have m: "missing_cols required_agg_cols agg_no_shire = [''shire'']" by code_simp
  then have h: "missing_cols required_agg_cols agg_no_shire \<noteq> [] \<or>
      missing_cols required_pid_cols pid_sample \<noteq> []"
    by simp
  have e: "\<not> df_empty agg_no_shire" by code_simp
  from merge_missing_columns [OF h, of sample_lib] m e show ?thesis by simp
qed

text \<open>
  C5 as stated fails on an empty aggregated table, where no diagnostic is emitted, and when
  both tables lack a column, where the one warning names the aggregated table's column only.
\<close>

theorem merge_missing_columns_counterexample:
  "missing_cols required_agg_cols agg_no_shire_empty = [''shire''] \<and>
   merge_with_pid_fuzzy sample_lib agg_no_shire_empty (Some pid_sample) =
     ([], Inr agg_no_shire_empty) \<and>
   missing_cols required_agg_cols agg_no_shire = [''shire''] \<and>
   missing_cols required_pid_cols pid_no_id = [''pid_ohl_nr''] \<and>
   merge_with_pid_fuzzy sample_lib agg_no_shire (Some pid_no_id) =
     ([Warning_missing_agg [''shire'']], Inr agg_no_shire)"
  by code_simp

lemma fill_value_other: "c \<notin> set assigned_cols \<Longrightarrow> fill_value c v = v"
  by (auto simp: fill_value_def assigned_cols_def)

lemma merge_passthrough:
  assumes "reconcilable agg pid"
    and "snd (merge_with_pid_fuzzy env agg (Some pid)) = Inr out"
  shows "list_all2 (\<lambda>r r'. \<forall>c\<in>set (columns agg) - set assigned_cols.
            cell_at out r' c = cell_at agg r c) (grouped_rows agg) (rows out)"
    and "set (columns agg) \<subseteq> set (columns out)"
    and "set (columns out) \<subseteq> set (columns agg) \<union> (set assigned_cols \<union> set (columns pid))"
    and "distinct (columns agg) \<Longrightarrow> \<exists>extra. columns out = columns agg @ extra"
proof -
  note m = merge_reconciled [OF assms]
  from m(5) obtain rest where rest: "columns out = drop_duplicates (columns agg @ rest)"
    "set rest \<subseteq> set (columns agg) \<union> (set assigned_cols \<union> set (columns pid))"
    by blast
  show sub: "set (columns agg) \<subseteq> set (columns out)" by (simp add: rest(1))
  show "set (columns out) \<subseteq> set (columns agg) \<union> (set assigned_cols \<union> set (columns pid))"
    using rest(2) by (simp add: rest(1))
  show "\<exists>extra. columns out = columns agg @ extra" if "distinct (columns agg)"
    using drop_duplicates_append [OF that, of rest] by (simp add: rest(1))
  show "list_all2 (\<lambda>r r'. \<forall>c\<in>set (columns agg) - set assigned_cols.
            cell_at out r' c = cell_at agg r c) (grouped_rows agg) (rows out)"
    using m(1)
  proof (rule list_all2_mono)
    fix r r'
    assume "\<exists>s. row_outcome env agg pid r s \<and>
        r' = map (\<lambda>c. fill_value c (series_get s c)) (columns out)"
    then obtain s where s: "row_outcome env agg pid r s"
      "r' = map (\<lambda>c. fill_value c (series_get s c)) (columns out)"
      by blast
    show "\<forall>c\<in>set (columns agg) - set assigned_cols. cell_at out r' c = cell_at agg r c"
    proof
      fix c assume c: "c \<in> set (columns agg) - set assigned_cols"
      with sub have "c \<in> set (columns out)" by auto
      from out_cell [OF s(2) this] c
      show "cell_at out r' c = cell_at agg r c"
        by (simp add: fill_value_other row_outcome_passthrough [OF s(1)])
    qed
  qed
qed

text \<open>
  C9 (as the code has it). When the guards are passed and a table is returned, its rows are the
  visited rows of the aggregated table, and every column of the aggregated table other than
  \<^verbatim>\<open>matched_project_description\<close>, \<^verbatim>\<open>match_score\<close>, \<^verbatim>\<open>pid_ohl_nr\<close> and
  \<^verbatim>\<open>project_description\<close> holds the input value in every row. The columns of the result
  are those of the aggregated table, followed (when its labels are distinct) by added ones; the
  added ones always include the first three of these four and otherwise come from the four and
  from the columns of the reference table.
\<close>

theorem merge_frame:
  assumes "reconcilable agg pid"
    and "snd (merge_with_pid_fuzzy env agg (Some pid)) = Inr out"
  shows "list_all2 (\<lambda>r r'. \<forall>c\<in>set (columns agg) - set assigned_cols.
            cell_at out r' c = cell_at agg r c) (grouped_rows agg) (rows out) \<and>
         set (columns agg) \<subseteq> set (columns out) \<and>
         set (columns out) \<subseteq> set (columns agg) \<union> (set assigned_cols \<union> set (columns pid)) \<and>
         ''matched_project_description'' \<in> set (columns out) \<and>
         ''match_score'' \<in> set (columns out) \<and>
         ''pid_ohl_nr'' \<in> set (columns out) \<and>
         (distinct (columns agg) \<longrightarrow> (\<exists>extra. columns out = columns agg @ extra))"
  using merge_passthrough [OF assms] merge_reconciled(2,3,4) [OF assms] by blast

theorem merge_frame_witness:
  "reconcilable agg_sample pid_sample \<and>
   snd (merge_with_pid_fuzzy sample_lib agg_sample (Some pid_sample)) = Inr out_sample \<and>
   list_all2 (\<lambda>r r'. list_all (\<lambda>c. cell_at out_sample r' c = cell_at agg_sample r c)
                 [''project'', ''shire'', ''segmentdesc'', ''qty''])
     (grouped_rows agg_sample) (rows out_sample) \<and>
   distinct (columns agg_sample) \<and>
   columns out_sample = columns agg_sample @ [''matched_project_description'', ''match_score'',
     ''pid_ohl_nr'', ''project_description'', ''voltage'']"
proof -
  have h: "snd (merge_with_pid_fuzzy sample_lib agg_sample (Some pid_sample)) = Inr out_sample"
    by (simp add: sample_result)
  have c: "set (columns agg_sample) - set assigned_cols =
      set [''project'', ''shire'', ''segmentdesc'', ''qty'']"
    by code_simp
  have d: "distinct (columns agg_sample)" by code_simp
  have e: "columns out_sample = columns agg_sample @ [''matched_project_description'',
      ''match_score'', ''pid_ohl_nr'', ''project_description'', ''voltage'']"
    by code_simp
  from merge_frame [OF sample_reconcilable h]
  have "list_all2 (\<lambda>r r'. \<forall>c\<in>set (columns agg_sample) - set assigned_cols.
            cell_at out_sample r' c = cell_at agg_sample r c)
          (grouped_rows agg_sample) (rows out_sample)"
    by blast
  then have "list_all2 (\<lambda>r r'. list_all (\<lambda>c. cell_at out_sample r' c = cell_at agg_sample r c)
                 [''project'', ''shire'', ''segmentdesc'', ''qty''])
     (grouped_rows agg_sample) (rows out_sample)"
    unfolding c list_all_iff .
  with sample_reconcilable h d e show ?thesis by blast
qed

text \<open>
  C9 as stated fails: five fields are appended here, \<^verbatim>\<open>project_description\<close> and the
  reference table's \<^verbatim>\<open>voltage\<close> among them.
\<close>

theorem merge_frame_counterexample:
  "snd (merge_with_pid_fuzzy sample_lib agg_sample (Some pid_sample)) = Inr out_sample \<and>
   columns agg_sample = [''project'', ''shire'', ''segmentdesc'', ''qty''] \<and>
   columns out_sample = [''project'', ''shire'', ''segmentdesc'', ''qty'',
     ''matched_project_description'', ''match_score'', ''pid_ohl_nr'', ''project_description'',
     ''voltage''] \<and>
   length (columns out_sample) = length (columns agg_sample) + 5"
proof -
  have "snd (merge_with_pid_fuzzy sample_lib agg_sample (Some pid_sample)) = Inr out_sample"
    by (simp add: sample_result)
  then show ?thesis by (simp add: agg_sample_def out_sample_def)
qed








lemma fill_value_nonnull: "v \<noteq> Null \<Longrightarrow> fill_value c v = v"
  by (simp add: fill_value_def)

lemma fill_value_Null:
  "fill_value ''matched_project_description'' Null = Str ''No Match''"
  "fill_value ''match_score'' Null = Num 0"
  "fill_value ''pid_ohl_nr'' Null = Str ''Not Available''"
  by (simp_all add: fill_value_def)

lemma row_series_absent: "c \<notin> set (columns df) \<Longrightarrow> series_get (row_series df r) c = Null"
  by (rule series_get_absent) simp

lemma reconcilable_columns:
  assumes "reconcilable agg pid"
  shows "set required_agg_cols \<subseteq> set (columns agg)"
    and "set required_pid_cols \<subseteq> set (columns pid)"
proof -
  from assms have "set (missing_cols required_agg_cols agg) = {}"
    "set (missing_cols required_pid_cols pid) = {}"
    by (simp_all add: reconcilable_def)
  then show "set required_agg_cols \<subseteq> set (columns agg)"
    "set required_pid_cols \<subseteq> set (columns pid)"
    unfolding missing_cols_set by blast+
qed

text \<open>What a row of the result holds, by the branch that produced it.\<close>

lemma merge_row_values:
  assumes "reconcilable agg pid"
    and "snd (merge_with_pid_fuzzy env agg (Some pid)) = Inr out"
  shows "list_all2 (\<lambda>r r'.
      (\<not> row_accepted env agg pid r \<and> (unenriched agg \<longrightarrow> sentinel_row out r')) \<or>
      (row_accepted env agg pid r \<and> score_accepted (cell_at out r' ''match_score'') \<and>
       (\<exists>p\<in>set (rows pid). copied_from pid out r' p)))
     (grouped_rows agg) (rows out)"
  using merge_reconciled(1) [OF assms(1,2)]
proof (rule list_all2_mono)
  fix r r'
  assume "\<exists>s. row_outcome env agg pid r s \<and>
      r' = map (\<lambda>c. fill_value c (series_get s c)) (columns out)"
  then obtain s where s: "row_outcome env agg pid r s"
    and r': "r' = map (\<lambda>c. fill_value c (series_get s c)) (columns out)"
    by blast
  note cols = merge_reconciled(2,3,4) [OF assms(1,2)]
  note oc = out_cell [OF r']
  from reconcilable_columns(1) [OF assms(1)]
  have req: "''project'' \<in> set (columns agg)" "''shire'' \<in> set (columns agg)"
    by (simp_all add: required_agg_cols_def)
  have na: "''project'' \<notin> set assigned_cols" "''shire'' \<notin> set assigned_cols"
    by (simp_all add: assigned_cols_def)
  from merge_passthrough(2) [OF assms(1,2)] req
  have inout: "''project'' \<in> set (columns out)" "''shire'' \<in> set (columns out)" by auto
  have key: "cell_at out r' ''project'' = cell_at agg r ''project''"
    "cell_at out r' ''shire'' = cell_at agg r ''shire''"
    using oc [OF inout(1)] oc [OF inout(2)] req na
    by (simp_all add: fill_value_other row_outcome_passthrough [OF s])
  let ?ps = "key_subset pid (cell_at agg r ''project'') (cell_at agg r ''shire'')"
  let ?fb = "find_best_match env (cell_at agg r ''segmentdesc'') (Some (pid_descriptions ?ps)) 75"
  have acc: "row_accepted env agg pid r =
      (cell_at agg r ''segmentdesc'' \<noteq> Null \<and>
       (case ?fb of (None, sc) \<Rightarrow> False | (Some bm, sc) \<Rightarrow> truthy bm \<and> 75 \<le> sc))"
    by (simp add: row_accepted_def row_candidates_def)
  from row_outcome_cases [OF s] consider
    (kept) "s = row_series agg r"
      "rows ?ps = [] \<or> columns pid = [] \<or> cell_at agg r ''segmentdesc'' = Null \<or>
          \<not> (\<exists>bm sc. ?fb = (Some bm, sc) \<and> truthy bm \<and> 75 \<le> sc)"
  | (matched) bm sc p where "s = make_new_row ?ps (row_series pid p) (row_series agg r) bm sc"
      "p \<in> set (rows pid)" "cell_at pid p ''project'' = cell_at agg r ''project''"
      "cell_at pid p ''shire'' = cell_at agg r ''shire''"
      "cell_at agg r ''project'' \<noteq> Null" "cell_at agg r ''shire'' \<noteq> Null"
      "cell_at pid p ''project_description'' = bm"
      "cell_at agg r ''segmentdesc'' \<noteq> Null"
      "?fb = (Some bm, sc)"
      "truthy bm" "75 \<le> sc"
    by blast
  then show "(\<not> row_accepted env agg pid r \<and> (unenriched agg \<longrightarrow> sentinel_row out r')) \<or>
      (row_accepted env agg pid r \<and> score_accepted (cell_at out r' ''match_score'') \<and>
       (\<exists>p\<in>set (rows pid). copied_from pid out r' p))"
  proof cases
    case kept
    note k = kept(1) and why = kept(2)
    have sr: "unenriched agg \<longrightarrow> sentinel_row out r'"
      using oc [OF cols(1)] oc [OF cols(2)] oc [OF cols(3)]
      by (simp add: sentinel_row_def unenriched_def k row_series_absent fill_value_Null)
    have e: "rows ?ps = [] \<Longrightarrow> ?fb = (None, 0)"
      by (simp add: pid_descriptions_def find_best_match_def)
    from reconcilable_columns(2) [OF assms(1)] have c: "columns pid \<noteq> []"
      by (auto simp: required_pid_cols_def)
    have "\<not> row_accepted env agg pid r"
    proof (cases "rows ?ps = []")
      case True
      with e show ?thesis by (simp add: acc)
    next
      case False
      with why c have "cell_at agg r ''segmentdesc'' = Null \<or>
          \<not> (\<exists>bm sc. ?fb = (Some bm, sc) \<and> truthy bm \<and> 75 \<le> sc)"
        by blast
      then show ?thesis unfolding acc by (cases ?fb) (auto split: option.splits)
    qed
    with sr show ?thesis by blast
  next
    case matched
    note m = matched(1) and p = matched(2-11)
    have v: "cell_at out r' ''matched_project_description'' = bm"
      "cell_at out r' ''match_score'' = Num sc"
      "cell_at out r' ''pid_ohl_nr'' = fill_value ''pid_ohl_nr'' (cell_at pid p ''pid_ohl_nr'')"
      using oc [OF cols(1)] oc [OF cols(2)] oc [OF cols(3)] truthy_not_Null [OF p(9)]
      by (simp_all add: m make_new_row_assigned fill_value_nonnull series_get_row_series)
    have a: "row_accepted env agg pid r" using p(7,8,9,10) by (simp add: acc)
    have b: "score_accepted (cell_at out r' ''match_score'')" using v(2) p(10) by simp
    have "copied_from pid out r' p" using p(2,3,4,5,6) v key by (simp add: copied_from_def)
    with p(1) a b show ?thesis by blast
  qed
qed

lemma sample_unenriched: "unenriched agg_sample"
  by code_simp

lemma merge_row_ids:
  assumes "reconcilable agg pid"
    and "snd (merge_with_pid_fuzzy env agg (Some pid)) = Inr out"
    and "unenriched agg"
    and "r' \<in> set (rows out)"
  shows "(sentinel_row out r' \<and> \<not> score_accepted (cell_at out r' ''match_score'')) \<or>
         (score_accepted (cell_at out r' ''match_score'') \<and>
          (\<exists>p\<in>set (rows pid). copied_from pid out r' p))"
proof -
  from list_all2_right_ex [OF merge_row_values [OF assms(1,2)] assms(4)] assms(3)
  obtain r where "(\<not> row_accepted env agg pid r \<and> sentinel_row out r') \<or>
      (row_accepted env agg pid r \<and> score_accepted (cell_at out r' ''match_score'') \<and>
       (\<exists>p\<in>set (rows pid). copied_from pid out r' p))"
    by blast
  moreover have "\<not> score_accepted (cell_at out r' ''match_score'')" if "sentinel_row out r'"
    using that by (simp add: sentinel_row_def)
  ultimately show ?thesis by blast
qed

text \<open>
  C2 (as the code has it). For an aggregated table that does not yet have the result columns,
  in every row of a returned table a reference id other than the sentinel comes with a score
  of at least 75. The converse holds when no reference row has a null
  \<^verbatim>\<open>pid_ohl_nr\<close> or one that is itself the sentinel text.
\<close>

theorem merge_score_and_reference_id:
  assumes "reconcilable agg pid"
    and "snd (merge_with_pid_fuzzy env agg (Some pid)) = Inr out"
    and "unenriched agg"
  shows "\<forall>r'\<in>set (rows out).
      (cell_at out r' ''pid_ohl_nr'' \<noteq> Str ''Not Available'' \<longrightarrow>
         score_accepted (cell_at out r' ''match_score'')) \<and>
      ((\<forall>p\<in>set (rows pid). cell_at pid p ''pid_ohl_nr'' \<noteq> Null \<and>
                            cell_at pid p ''pid_ohl_nr'' \<noteq> Str ''Not Available'') \<longrightarrow>
         score_accepted (cell_at out r' ''match_score'') \<longrightarrow>
         cell_at out r' ''pid_ohl_nr'' \<noteq> Str ''Not Available'')"
proof
  fix r' assume r': "r' \<in> set (rows out)"
  let ?id = "cell_at out r' ''pid_ohl_nr''"
  let ?ok = "score_accepted (cell_at out r' ''match_score'')"
  note c = merge_row_ids [OF assms r']
  have 1: "?ok" if "?id \<noteq> Str ''Not Available''"
    using c that by (auto simp: sentinel_row_def)
  have 2: "?id \<noteq> Str ''Not Available''"
    if ok: "?ok" and q: "\<forall>p\<in>set (rows pid). cell_at pid p ''pid_ohl_nr'' \<noteq> Null \<and>
                            cell_at pid p ''pid_ohl_nr'' \<noteq> Str ''Not Available''"
  proof -
    from c ok obtain p where p: "p \<in> set (rows pid)" "copied_from pid out r' p" by blast
    from p(2) have "?id = fill_value ''pid_ohl_nr'' (cell_at pid p ''pid_ohl_nr'')"
      by (simp add: copied_from_def)
    with q p(1) show ?thesis by (simp add: fill_value_nonnull)
  qed
  from 1 2 show "(?id \<noteq> Str ''Not Available'' \<longrightarrow> ?ok) \<and>
      ((\<forall>p\<in>set (rows pid). cell_at pid p ''pid_ohl_nr'' \<noteq> Null \<and>
                            cell_at pid p ''pid_ohl_nr'' \<noteq> Str ''Not Available'') \<longrightarrow>
         ?ok \<longrightarrow> ?id \<noteq> Str ''Not Available'')"
    by blast
qed

theorem merge_score_and_reference_id_witness:
  "reconcilable agg_sample pid_sample \<and>
   snd (merge_with_pid_fuzzy sample_lib agg_sample (Some pid_sample)) = Inr out_sample \<and>
   unenriched agg_sample \<and>
   list_all (\<lambda>p. cell_at pid_sample p ''pid_ohl_nr'' \<noteq> Null \<and>
                 cell_at pid_sample p ''pid_ohl_nr'' \<noteq> Str ''Not Available'') (rows pid_sample) \<and>
   list_all (\<lambda>r'. score_accepted (cell_at out_sample r' ''match_score'') =
                    (cell_at out_sample r' ''pid_ohl_nr'' \<noteq> Str ''Not Available''))
     (rows out_sample) \<and>
   map (\<lambda>r'. cell_at out_sample r' ''pid_ohl_nr'') (rows out_sample) =
     [Str ''OHL-1'', Str ''Not Available'', Str ''Not Available'', Str ''Not Available'']"
proof -
  have h: "snd (merge_with_pid_fuzzy sample_lib agg_sample (Some pid_sample)) = Inr out_sample"
    by (simp add: sample_result)
  have q: "list_all (\<lambda>p. cell_at pid_sample p ''pid_ohl_nr'' \<noteq> Null \<and>
      cell_at pid_sample p ''pid_ohl_nr'' \<noteq> Str ''Not Available'') (rows pid_sample)"
    by code_simp
  have m: "map (\<lambda>r'. cell_at out_sample r' ''pid_ohl_nr'') (rows out_sample) =
     [Str ''OHL-1'', Str ''Not Available'', Str ''Not Available'', Str ''Not Available'']"
    by code_simp
  note t = merge_score_and_reference_id [OF sample_reconcilable h sample_unenriched]
  have "score_accepted (cell_at out_sample r' ''match_score'') =
      (cell_at out_sample r' ''pid_ohl_nr'' \<noteq> Str ''Not Available'')"
    if "r' \<in> set (rows out_sample)" for r'
    using t that q unfolding list_all_iff by blast
  then have "list_all (\<lambda>r'. score_accepted (cell_at out_sample r' ''match_score'') =
                    (cell_at out_sample r' ''pid_ohl_nr'' \<noteq> Str ''Not Available''))
     (rows out_sample)"
    unfolding list_all_iff by blast
  with sample_reconcilable h sample_unenriched q m show ?thesis by blast
qed

text \<open>
  C2 as stated fails for a reference row whose own \<^verbatim>\<open>pid_ohl_nr\<close> is null: the row is
  accepted with score 100 and its id is filled with the sentinel.
\<close>

theorem merge_score_and_reference_id_counterexample:
  "snd (merge_with_pid_fuzzy sample_lib agg_wire (Some pid_null_id)) = Inr out_wire \<and>
   map (\<lambda>p. cell_at pid_null_id p ''pid_ohl_nr'') (rows pid_null_id) = [Null] \<and>
   map (\<lambda>r'. cell_at out_wire r' ''match_score'') (rows out_wire) = [Num 100] \<and>
   map (\<lambda>r'. cell_at out_wire r' ''pid_ohl_nr'') (rows out_wire) = [Str ''Not Available'']"
  by code_simp

lemma fill_value_id:
  "fill_value ''pid_ohl_nr'' v \<noteq> Str ''Not Available'' \<Longrightarrow> fill_value ''pid_ohl_nr'' v = v"
  by (cases "v = Null") (simp_all add: fill_value_def)

lemma row_candidates_source:
  assumes "d \<in> set (row_candidates agg pid r)"
  shows "\<exists>p\<in>set (rows pid).
           cell_eq (cell_at pid p ''project'') (cell_at agg r ''project'') \<and>
           cell_eq (cell_at pid p ''shire'') (cell_at agg r ''shire'') \<and>
           cell_at pid p ''project_description'' = d"
  using assms by (auto simp: row_candidates_def pid_descriptions_def rows_key_subset)

lemma row_candidates_empty:
  assumes "\<forall>p\<in>set (rows pid).
      \<not> (cell_eq (cell_at pid p ''project'') (cell_at agg r ''project'') \<and>
         cell_eq (cell_at pid p ''shire'') (cell_at agg r ''shire''))"
  shows "row_candidates agg pid r = []"
proof -
  have "rows (key_subset pid (cell_at agg r ''project'') (cell_at agg r ''shire'')) = []"
    unfolding rows_key_subset filter_empty_conv using assms by blast
  then show ?thesis by (simp add: row_candidates_def pid_descriptions_def)
qed

text \<open>
  C3 (as the code has it). Every row that is sent into the accepted branch took its reference
  id and its matched description from a reference row that has exactly the row's project and
  shire, both present. So, for an aggregated table that does not yet have the result columns,
  every row of the returned table whose reference id is not the sentinel is copied from such a
  reference row. The candidates a row is compared with are descriptions of reference rows of
  its own (project, shire) pair, and there are none when no reference row has that pair.
\<close>

theorem merge_key_bounded:
  assumes "reconcilable agg pid"
    and "snd (merge_with_pid_fuzzy env agg (Some pid)) = Inr out"
  shows "list_all2 (\<lambda>r r'. row_accepted env agg pid r \<longrightarrow>
            (\<exists>p\<in>set (rows pid). copied_from pid out r' p)) (grouped_rows agg) (rows out) \<and>
         (unenriched agg \<longrightarrow>
            (\<forall>r'\<in>set (rows out). cell_at out r' ''pid_ohl_nr'' \<noteq> Str ''Not Available'' \<longrightarrow>
               (\<exists>p\<in>set (rows pid).
                  cell_at pid p ''project'' = cell_at out r' ''project'' \<and>
                  cell_at pid p ''shire'' = cell_at out r' ''shire'' \<and>
                  cell_at out r' ''project'' \<noteq> Null \<and> cell_at out r' ''shire'' \<noteq> Null \<and>
                  cell_at pid p ''project_description'' =
                    cell_at out r' ''matched_project_description'' \<and>
                  cell_at pid p ''pid_ohl_nr'' = cell_at out r' ''pid_ohl_nr''))) \<and>
         (\<forall>d\<in>set (row_candidates agg pid r).
            \<exists>p\<in>set (rows pid).
               cell_eq (cell_at pid p ''project'') (cell_at agg r ''project'') \<and>
               cell_eq (cell_at pid p ''shire'') (cell_at agg r ''shire'') \<and>
               cell_at pid p ''project_description'' = d) \<and>
         ((\<forall>p\<in>set (rows pid).
             \<not> (cell_eq (cell_at pid p ''project'') (cell_at agg r ''project'') \<and>
                cell_eq (cell_at pid p ''shire'') (cell_at agg r ''shire''))) \<longrightarrow>
          row_candidates agg pid r = [])"
proof (intro conjI ballI impI)
  show "list_all2 (\<lambda>r r'. row_accepted env agg pid r \<longrightarrow>
            (\<exists>p\<in>set (rows pid). copied_from pid out r' p)) (grouped_rows agg) (rows out)"
    using merge_row_values [OF assms] by (rule list_all2_mono) blast
next
  fix r' assume u: "unenriched agg" and r': "r' \<in> set (rows out)"
    and id: "cell_at out r' ''pid_ohl_nr'' \<noteq> Str ''Not Available''"
  from merge_row_ids [OF assms u r'] id obtain p where
    p: "p \<in> set (rows pid)" "copied_from pid out r' p"
    by (auto simp: sentinel_row_def)
  from p(2) have e: "cell_at out r' ''pid_ohl_nr'' =
      fill_value ''pid_ohl_nr'' (cell_at pid p ''pid_ohl_nr'')"
    by (simp add: copied_from_def)
  with id have "fill_value ''pid_ohl_nr'' (cell_at pid p ''pid_ohl_nr'') =
      cell_at pid p ''pid_ohl_nr''"
    by (intro fill_value_id) simp
  with e have "cell_at pid p ''pid_ohl_nr'' = cell_at out r' ''pid_ohl_nr''" by simp
  with p show "\<exists>p\<in>set (rows pid).
               cell_at pid p ''project'' = cell_at out r' ''project'' \<and>
               cell_at pid p ''shire'' = cell_at out r' ''shire'' \<and>
               cell_at out r' ''project'' \<noteq> Null \<and> cell_at out r' ''shire'' \<noteq> Null \<and>
               cell_at pid p ''project_description'' =
                 cell_at out r' ''matched_project_description'' \<and>
               cell_at pid p ''pid_ohl_nr'' = cell_at out r' ''pid_ohl_nr''"
    unfolding copied_from_def by blast
next
  fix d assume "d \<in> set (row_candidates agg pid r)"
  then show "\<exists>p\<in>set (rows pid).
               cell_eq (cell_at pid p ''project'') (cell_at agg r ''project'') \<and>
               cell_eq (cell_at pid p ''shire'') (cell_at agg r ''shire'') \<and>
               cell_at pid p ''project_description'' = d"
    by (rule row_candidates_source)
next
  assume "\<forall>p\<in>set (rows pid).
             \<not> (cell_eq (cell_at pid p ''project'') (cell_at agg r ''project'') \<and>
                cell_eq (cell_at pid p ''shire'') (cell_at agg r ''shire''))"
  then show "row_candidates agg pid r = []" by (rule row_candidates_empty)
qed

theorem merge_key_bounded_witness:
  "reconcilable agg_sample pid_sample \<and>
   snd (merge_with_pid_fuzzy sample_lib agg_sample (Some pid_sample)) = Inr out_sample \<and>
   unenriched agg_sample \<and>
   row_accepted sample_lib agg_sample pid_sample (grouped_rows agg_sample ! 0) \<and>
   cell_at out_sample (rows out_sample ! 0) ''pid_ohl_nr'' = Str ''OHL-1'' \<and>
   cell_at out_sample (rows out_sample ! 0) ''project'' = Str ''P1'' \<and>
   cell_at out_sample (rows out_sample ! 0) ''shire'' = Str ''Ayr'' \<and>
   list_ex (\<lambda>p. cell_at pid_sample p ''project'' = Str ''P1'' \<and>
                cell_at pid_sample p ''shire'' = Str ''Ayr'' \<and>
                cell_at pid_sample p ''pid_ohl_nr'' = Str ''OHL-1'') (rows pid_sample)"
proof -
  have h: "snd (merge_with_pid_fuzzy sample_lib agg_sample (Some pid_sample)) = Inr out_sample"
    by (simp add: sample_result)
  have v: "cell_at out_sample (rows out_sample ! 0) ''pid_ohl_nr'' = Str ''OHL-1''"
    "cell_at out_sample (rows out_sample ! 0) ''project'' = Str ''P1''"
    "cell_at out_sample (rows out_sample ! 0) ''shire'' = Str ''Ayr''"
    by code_simp+
  have m: "rows out_sample ! 0 \<in> set (rows out_sample)" by (simp add: out_sample_def)
  have a: "row_accepted sample_lib agg_sample pid_sample (grouped_rows agg_sample ! 0)"
    by code_simp
  from merge_key_bounded [OF sample_reconcilable h] sample_unenriched m v(1)
  have "\<exists>p\<in>set (rows pid_sample).
      cell_at pid_sample p ''project'' = cell_at out_sample (rows out_sample ! 0) ''project'' \<and>
      cell_at pid_sample p ''shire'' = cell_at out_sample (rows out_sample ! 0) ''shire'' \<and>
      cell_at pid_sample p ''pid_ohl_nr'' = cell_at out_sample (rows out_sample ! 0) ''pid_ohl_nr''"
    by fastforce
  then have "list_ex (\<lambda>p. cell_at pid_sample p ''project'' = Str ''P1'' \<and>
                cell_at pid_sample p ''shire'' = Str ''Ayr'' \<and>
                cell_at pid_sample p ''pid_ohl_nr'' = Str ''OHL-1'') (rows pid_sample)"
    unfolding v list_ex_iff .
  with sample_reconcilable h sample_unenriched v a show ?thesis by blast
qed

text \<open>
  C3 as stated fails for an aggregated table that already has a column \<^verbatim>\<open>pid_ohl_nr\<close>: a
  row that is not accepted keeps its old id, which is not the sentinel and which no reference
  row holds, and no reference row has the row's project.
\<close>

theorem merge_key_bounded_counterexample:
  "snd (merge_with_pid_fuzzy sample_lib agg_old_ids (Some pid_sample)) = Inr out_old_ids \<and>
   \<not> unenriched agg_old_ids \<and>
   rows out_old_ids ! 1 = [Str ''P2'', Str ''Ayr'', Str ''Pole B'', Str ''OLD-2'',
                Str ''No Match'', Num 0, Null, Null] \<and>
   cell_at out_old_ids (rows out_old_ids ! 1) ''pid_ohl_nr'' = Str ''OLD-2'' \<and>
   cell_at out_old_ids (rows out_old_ids ! 1) ''project'' = Str ''P2'' \<and>
   map (\<lambda>p. cell_at pid_sample p ''pid_ohl_nr'') (rows pid_sample) =
     [Str ''OHL-1'', Str ''OHL-9''] \<and>
   map (\<lambda>p. cell_at pid_sample p ''project'') (rows pid_sample) = [Str ''P1'', Str ''P1'']"
  by code_simp










end
